theory Spec2Isabelle
  imports
    Main
    "HOL-Library.Multiset"
    "HOL-Library.Product_Lexorder"
    "HOL-Library.List_Lexorder"
    "HOL-Library.Char_ord"
begin

section \<open>Python values, runtime types and exceptions\<close>

text \<open>
  The containers of \<^verbatim>\<open>advanced_structures.py\<close> hold arbitrary Python objects. The model
  keeps the objects the source itself stores (integers and strings) together with
  \<^verbatim>\<open>None\<close> and the booleans; \<open>type_of\<close> is Python's \<^verbatim>\<open>type(element)\<close>, which
  is exact: the type of \<^verbatim>\<open>True\<close> is \<^verbatim>\<open>bool\<close>, not \<^verbatim>\<open>int\<close>.
\<close>

datatype pyval = NoneV | BoolV bool | IntV int | StrV string

datatype pytype = NoneType | BoolT | IntT | StrT

fun type_of :: "pyval \<Rightarrow> pytype" where
  "type_of NoneV = NoneType"
| "type_of (BoolV b) = BoolT"
| "type_of (IntV i) = IntT"
| "type_of (StrV s) = StrT"

text \<open>
  The exceptions the source can raise: a failed \<^verbatim>\<open>assert\<close>, the \<^verbatim>\<open>IndexError\<close> of an
  empty or out-of-range sequence, and the \<^verbatim>\<open>TypeError\<close> of an ordering comparison between
  objects that have no order. A call yields an outcome (\<open>Inl\<close> the exception, \<open>Inr\<close> the
  returned value) and the object's state after it.
\<close>

datatype error = AssertionError | IndexError | TypeError

type_synonym ('r, 's) result = "(error + 'r) \<times> 's"

subsection \<open>The built-in sequence operations the source calls\<close>

text \<open>\<^verbatim>\<open>list.pop()\<close>: removes and returns the last element; raises on an empty list.\<close>

definition list_pop :: "'a list \<Rightarrow> ('a, 'a list) result" where
  "list_pop xs = (if xs = [] then (Inl IndexError, xs) else (Inr (last xs), butlast xs))"

text \<open>\<^verbatim>\<open>list.pop(0)\<close> and \<^verbatim>\<open>deque.popleft()\<close>: remove and return the first element.\<close>

definition list_pop0 :: "'a list \<Rightarrow> ('a, 'a list) result" where
  "list_pop0 xs = (case xs of [] \<Rightarrow> (Inl IndexError, xs) | x # rest \<Rightarrow> (Inr x, rest))"

definition deque_popleft :: "'a list \<Rightarrow> ('a, 'a list) result" where
  "deque_popleft xs = (case xs of [] \<Rightarrow> (Inl IndexError, xs) | x # rest \<Rightarrow> (Inr x, rest))"

text \<open>
  \<^verbatim>\<open>xs[i]\<close>: an index below zero is taken from the end of the sequence, and an index
  outside the sequence raises.
\<close>

definition getitem :: "'a list \<Rightarrow> int \<Rightarrow> error + 'a" where
  "getitem xs i =
     (if 0 \<le> i \<and> i < int (length xs) then Inr (xs ! nat i)
      else if i < 0 \<and> - i \<le> int (length xs) then Inr (xs ! nat (int (length xs) + i))
      else Inl IndexError)"

section \<open>Section 3 of the source: class \<^verbatim>\<open>stack\<close>\<close>

record stack =
  stack :: "pyval list"

definition stack_init :: "pyval list option \<Rightarrow> stack" where
  "stack_init elements =
     (case elements of None \<Rightarrow> \<lparr>stack = []\<rparr> | Some es \<Rightarrow> \<lparr>stack = es\<rparr>)"

definition stack_push :: "stack \<Rightarrow> pyval \<Rightarrow> (pyval, stack) result" where
  "stack_push self element = (Inr NoneV, self\<lparr>stack := stack self @ [element]\<rparr>)"

definition stack_pop :: "stack \<Rightarrow> (pyval, stack) result" where
  "stack_pop self =
     (if stack self \<noteq> [] then
        (case list_pop (stack self) of
           (Inl e, xs) \<Rightarrow> (Inl e, self\<lparr>stack := xs\<rparr>)
         | (Inr popped, xs) \<Rightarrow> (Inr NoneV, self\<lparr>stack := xs\<rparr>))
      else (Inr NoneV, self))"

definition stack_top :: "stack \<Rightarrow> (pyval, stack) result" where
  "stack_top self =
     (if stack self \<noteq> [] then
        (case getitem (stack self) (- 1) of
           Inl e \<Rightarrow> (Inl e, self)
         | Inr v \<Rightarrow> (Inr v, self))
      else (Inr NoneV, self))"

definition stack_size :: "stack \<Rightarrow> int" where
  "stack_size self = int (length (stack self))"

definition stack_is_empty :: "stack \<Rightarrow> bool" where
  "stack_is_empty self = (if stack self \<noteq> [] then False else True)"

text \<open>A client program over one stack: a sequence of \<^verbatim>\<open>push\<close> and \<^verbatim>\<open>pop\<close> calls.\<close>

datatype stack_op = Push pyval | Pop

fun stack_step :: "stack \<Rightarrow> stack_op \<Rightarrow> (pyval, stack) result" where
  "stack_step s (Push v) = stack_push s v"
| "stack_step s Pop = stack_pop s"

fun stack_run :: "stack \<Rightarrow> stack_op list \<Rightarrow> stack" where
  "stack_run s [] = s"
| "stack_run s (c # cs) = stack_run (snd (stack_step s c)) cs"

fun push_count :: "stack_op list \<Rightarrow> nat" where
  "push_count [] = 0"
| "push_count (Push v # cs) = Suc (push_count cs)"
| "push_count (Pop # cs) = push_count cs"

fun pop_count :: "stack_op list \<Rightarrow> nat" where
  "pop_count [] = 0"
| "pop_count (Push v # cs) = pop_count cs"
| "pop_count (Pop # cs) = Suc (pop_count cs)"

text \<open>The number of \<^verbatim>\<open>pop\<close> calls of the program that find the stack empty.\<close>

fun noop_pop_count :: "stack \<Rightarrow> stack_op list \<Rightarrow> nat" where
  "noop_pop_count s [] = 0"
| "noop_pop_count s (Push v # cs) = noop_pop_count (snd (stack_push s v)) cs"
| "noop_pop_count s (Pop # cs) =
     (if stack_is_empty s then 1 else 0) + noop_pop_count (snd (stack_pop s)) cs"

text \<open>
  \<open>settles d cs\<close>: started with \<open>d\<close> elements of its own, the program \<open>cs\<close> never pops
  below them, and ends with \<open>settles d cs\<close> of its own elements left. A program with
  \<open>settles 0 cs = Some 0\<close> pops exactly what it pushed.
\<close>

fun settles :: "nat \<Rightarrow> stack_op list \<Rightarrow> nat option" where
  "settles d [] = Some d"
| "settles d (Push v # cs) = settles (Suc d) cs"
| "settles d (Pop # cs) = (case d of 0 \<Rightarrow> None | Suc d' \<Rightarrow> settles d' cs)"

section \<open>Section 4 of the source: class \<^verbatim>\<open>queue\<close> (list-backed)\<close>

record queue =
  queue :: "pyval list"

definition queue_init :: queue where
  "queue_init = \<lparr>queue.queue = []\<rparr>"

definition queue_enqueue :: "queue \<Rightarrow> pyval \<Rightarrow> (pyval, queue) result" where
  "queue_enqueue self element = (Inr NoneV, self\<lparr>queue.queue := queue.queue self @ [element]\<rparr>)"

definition queue_dequeue :: "queue \<Rightarrow> (pyval, queue) result" where
  "queue_dequeue self =
     (if queue.queue self \<noteq> [] then
        (case list_pop0 (queue.queue self) of (r, xs) \<Rightarrow> (r, self\<lparr>queue.queue := xs\<rparr>))
      else (Inr NoneV, self))"

definition queue_front :: "queue \<Rightarrow> (pyval, queue) result" where
  "queue_front self =
     (if queue.queue self \<noteq> [] then (getitem (queue.queue self) 0, self)
      else (Inr NoneV, self))"

definition queue_is_empty :: "queue \<Rightarrow> bool" where
  "queue_is_empty self = (int (length (queue.queue self)) = 0)"

definition queue_size :: "queue \<Rightarrow> int" where
  "queue_size self = int (length (queue.queue self))"

text \<open>Enqueue a sequence of elements, then call \<^verbatim>\<open>dequeue\<close> a number of times.\<close>

fun queue_enqueue_all :: "queue \<Rightarrow> pyval list \<Rightarrow> (pyval, queue) result" where
  "queue_enqueue_all q [] = (Inr NoneV, q)"
| "queue_enqueue_all q (e # es) =
     (case queue_enqueue q e of
        (Inl err, q') \<Rightarrow> (Inl err, q')
      | (Inr r, q') \<Rightarrow> queue_enqueue_all q' es)"

fun queue_dequeue_n :: "queue \<Rightarrow> nat \<Rightarrow> (pyval list, queue) result" where
  "queue_dequeue_n q 0 = (Inr [], q)"
| "queue_dequeue_n q (Suc n) =
     (case queue_dequeue q of
        (Inl err, q') \<Rightarrow> (Inl err, q')
      | (Inr v, q') \<Rightarrow>
          (case queue_dequeue_n q' n of
             (Inl err, q'') \<Rightarrow> (Inl err, q'')
           | (Inr vs, q'') \<Rightarrow> (Inr (v # vs), q'')))"

section \<open>Section 5 of the source: class \<^verbatim>\<open>my_queue\<close> (deque-backed)\<close>

text \<open>
  The deque is used at its two ends only (\<^verbatim>\<open>append\<close>, \<^verbatim>\<open>popleft\<close>, \<^verbatim>\<open>[0]\<close>,
  \<^verbatim>\<open>len\<close>), so its contents are a list, front first. \<open>element_type\<close> is the type
  object given to the constructor.
\<close>

record my_queue =
  element_type :: pytype
  queue :: "pyval list"

definition my_queue_init :: "pytype \<Rightarrow> my_queue" where
  "my_queue_init elem_type = \<lparr>element_type = elem_type, my_queue.queue = []\<rparr>"

definition my_queue_enqueue :: "my_queue \<Rightarrow> pyval \<Rightarrow> (pyval, my_queue) result" where
  "my_queue_enqueue self element =
     (if type_of element = element_type self
      then (Inr NoneV, self\<lparr>my_queue.queue := my_queue.queue self @ [element]\<rparr>)
      else (Inl AssertionError, self))"

definition my_queue_empty :: "my_queue \<Rightarrow> bool" where
  "my_queue_empty self = (int (length (my_queue.queue self)) = 0)"

definition my_queue_dequeue :: "my_queue \<Rightarrow> (pyval, my_queue) result" where
  "my_queue_dequeue self =
     (if \<not> my_queue_empty self then
        (case deque_popleft (my_queue.queue self) of
           (r, xs) \<Rightarrow> (r, self\<lparr>my_queue.queue := xs\<rparr>))
      else (Inl IndexError, self))"

definition my_queue_front :: "my_queue \<Rightarrow> (pyval, my_queue) result" where
  "my_queue_front self =
     (if \<not> my_queue_empty self then (getitem (my_queue.queue self) 0, self)
      else (Inl IndexError, self))"

fun my_queue_enqueue_all :: "my_queue \<Rightarrow> pyval list \<Rightarrow> (pyval, my_queue) result" where
  "my_queue_enqueue_all q [] = (Inr NoneV, q)"
| "my_queue_enqueue_all q (e # es) =
     (case my_queue_enqueue q e of
        (Inl err, q') \<Rightarrow> (Inl err, q')
      | (Inr r, q') \<Rightarrow> my_queue_enqueue_all q' es)"

fun my_queue_dequeue_n :: "my_queue \<Rightarrow> nat \<Rightarrow> (pyval list, my_queue) result" where
  "my_queue_dequeue_n q 0 = (Inr [], q)"
| "my_queue_dequeue_n q (Suc n) =
     (case my_queue_dequeue q of
        (Inl err, q') \<Rightarrow> (Inl err, q')
      | (Inr v, q') \<Rightarrow>
          (case my_queue_dequeue_n q' n of
             (Inl err, q'') \<Rightarrow> (Inl err, q'')
           | (Inr vs, q'') \<Rightarrow> (Inr (v # vs), q'')))"

section \<open>Section 6 of the source: the priority queue on \<^verbatim>\<open>heapq\<close>\<close>

text \<open>
  The source keeps its priority queue in a plain list and calls \<^verbatim>\<open>heapq.heappush\<close> and
  \<^verbatim>\<open>heapq.heappop\<close> of the Python standard library on it (lines 241 to 249). The four
  functions below are the text of the library module \<^verbatim>\<open>heapq.py\<close>: \<^verbatim>\<open>heappush\<close>,
  \<^verbatim>\<open>heappop\<close>, \<^verbatim>\<open>_siftdown\<close> and \<^verbatim>\<open>_siftup\<close>, each while loop a recursive
  function over the loop's variables. Heap items are compared with \<^verbatim>\<open><\<close> only; a
  \<^verbatim>\<open>(priority, payload)\<close> tuple is a pair under the lexicographic order, which is
  Python's order on tuples of integers and strings.
\<close>

function siftdown_loop :: "'a::linorder list \<Rightarrow> nat \<Rightarrow> nat \<Rightarrow> 'a \<Rightarrow> 'a list \<times> nat" where
  "siftdown_loop heap startpos pos newitem =
     (if pos > startpos then
        (let parentpos = (pos - 1) div 2;
             parent = heap ! parentpos
         in if newitem < parent
            then siftdown_loop (heap[pos := parent]) startpos parentpos newitem
            else (heap, pos))
      else (heap, pos))"
  by pat_completeness auto
termination
  by (relation "measure (\<lambda>(heap, startpos, pos, newitem). pos)") auto

declare siftdown_loop.simps [simp del]

definition siftdown :: "'a::linorder list \<Rightarrow> nat \<Rightarrow> nat \<Rightarrow> (unit, 'a list) result" where
  "siftdown heap startpos pos =
     (if pos < length heap then
        (let newitem = heap ! pos;
             (heap', pos') = siftdown_loop heap startpos pos newitem
         in (Inr (), heap'[pos' := newitem]))
      else (Inl IndexError, heap))"

function siftup_loop :: "'a::linorder list \<Rightarrow> nat \<Rightarrow> nat \<Rightarrow> nat \<Rightarrow> 'a list \<times> nat" where
  "siftup_loop heap endpos pos childpos =
     (if childpos < endpos then
        (let rightpos = childpos + 1;
             childpos' = (if rightpos < endpos \<and> \<not> heap ! childpos < heap ! rightpos
                          then rightpos else childpos)
         in siftup_loop (heap[pos := heap ! childpos']) endpos childpos' (2 * childpos' + 1))
      else (heap, pos))"
  by pat_completeness auto
termination
  by (relation "measure (\<lambda>(heap, endpos, pos, childpos). endpos - childpos)") auto

declare siftup_loop.simps [simp del]

definition siftup :: "'a::linorder list \<Rightarrow> nat \<Rightarrow> (unit, 'a list) result" where
  "siftup heap pos =
     (if pos < length heap then
        (let endpos = length heap;
             startpos = pos;
             newitem = heap ! pos;
             childpos = 2 * pos + 1;
             (heap', pos') = siftup_loop heap endpos pos childpos
         in siftdown (heap'[pos' := newitem]) startpos pos')
      else (Inl IndexError, heap))"

definition heappush :: "'a::linorder list \<Rightarrow> 'a \<Rightarrow> (unit, 'a list) result" where
  "heappush heap item =
     (let heap' = heap @ [item] in siftdown heap' 0 (length heap' - 1))"

definition heappop :: "'a::linorder list \<Rightarrow> ('a, 'a list) result" where
  "heappop heap =
     (case list_pop heap of
        (Inl e, heap1) \<Rightarrow> (Inl e, heap1)
      | (Inr lastelt, heap1) \<Rightarrow>
          if heap1 \<noteq> [] then
            (let returnitem = heap1 ! 0;
                 heap2 = heap1[0 := lastelt]
             in case siftup heap2 0 of
                  (Inl e, heap3) \<Rightarrow> (Inl e, heap3)
                | (Inr u, heap3) \<Rightarrow> (Inr returnitem, heap3))
          else (Inr lastelt, heap1))"

text \<open>Push a sequence of entries, then call \<^verbatim>\<open>heappop\<close> a number of times.\<close>

fun heappush_all :: "'a::linorder list \<Rightarrow> 'a list \<Rightarrow> (unit, 'a list) result" where
  "heappush_all heap [] = (Inr (), heap)"
| "heappush_all heap (x # xs) =
     (case heappush heap x of
        (Inl e, heap') \<Rightarrow> (Inl e, heap')
      | (Inr u, heap') \<Rightarrow> heappush_all heap' xs)"

fun heappop_n :: "'a::linorder list \<Rightarrow> nat \<Rightarrow> ('a list, 'a list) result" where
  "heappop_n heap 0 = (Inr [], heap)"
| "heappop_n heap (Suc n) =
     (case heappop heap of
        (Inl e, heap') \<Rightarrow> (Inl e, heap')
      | (Inr x, heap') \<Rightarrow>
          (case heappop_n heap' n of
             (Inl e, heap'') \<Rightarrow> (Inl e, heap'')
           | (Inr xs, heap'') \<Rightarrow> (Inr (x # xs), heap'')))"

text \<open>
  The invariant \<^verbatim>\<open>heapq\<close> documents: \<^verbatim>\<open>heap[k] <= heap[2*k+1]\<close> and
  \<^verbatim>\<open>heap[k] <= heap[2*k+2]\<close> for every \<open>k\<close>, written from the child's side.
\<close>

definition is_heap :: "'a::linorder list \<Rightarrow> bool" where
  "is_heap h = (\<forall>i \<in> {1..<length h}. h ! ((i - 1) div 2) \<le> h ! i)"

subsection \<open>Heap entries with arbitrary payloads\<close>

text \<open>
  The functions above take heap items of a totally ordered type, where \<^verbatim>\<open><\<close> always
  answers. A priority queue entry is a tuple \<^verbatim>\<open>(priority, payload)\<close> whose payload may be
  any Python object, and Python compares tuples item by item: the first items that are not
  \<^verbatim>\<open>==\<close> decide, by their own \<^verbatim>\<open><\<close>, which raises \<^verbatim>\<open>TypeError\<close> when the two objects
  have no order (\<^verbatim>\<open>None\<close> against anything, a string against a number). Booleans are
  numbers: \<^verbatim>\<open>True == 1\<close>.
\<close>

fun py_num :: "pyval \<Rightarrow> int option" where
  "py_num (BoolV b) = Some (if b then 1 else 0)"
| "py_num (IntV i) = Some i"
| "py_num v = None"

fun py_eq :: "pyval \<Rightarrow> pyval \<Rightarrow> bool" where
  "py_eq NoneV NoneV = True"
| "py_eq (StrV s) (StrV t) = (s = t)"
| "py_eq a b = (case (py_num a, py_num b) of (Some i, Some j) \<Rightarrow> i = j | _ \<Rightarrow> False)"

fun py_lt :: "pyval \<Rightarrow> pyval \<Rightarrow> error + bool" where
  "py_lt (StrV s) (StrV t) = Inr (s < t)"
| "py_lt a b = (case (py_num a, py_num b) of (Some i, Some j) \<Rightarrow> Inr (i < j) | _ \<Rightarrow> Inl TypeError)"

fun tuple_lt :: "'p::linorder \<times> pyval \<Rightarrow> 'p \<times> pyval \<Rightarrow> error + bool" where
  "tuple_lt (p1, v1) (p2, v2) =
     (if p1 \<noteq> p2 then Inr (p1 < p2)
      else if \<not> py_eq v1 v2 then py_lt v1 v2
      else Inr False)"

text \<open>
  \<^verbatim>\<open>heapq\<close> again, on such entries. A comparison that raises ends the call at once, and the
  list stays as the loop has left it.
\<close>

function py_siftdown_loop ::
  "('p::linorder \<times> pyval) list \<Rightarrow> nat \<Rightarrow> nat \<Rightarrow> 'p \<times> pyval \<Rightarrow> (nat, ('p \<times> pyval) list) result"
where
  "py_siftdown_loop heap startpos pos newitem =
     (if pos > startpos then
        (let parentpos = (pos - 1) div 2;
             parent = heap ! parentpos
         in case tuple_lt newitem parent of
              Inl e \<Rightarrow> (Inl e, heap)
            | Inr smaller \<Rightarrow>
                if smaller
                then py_siftdown_loop (heap[pos := parent]) startpos parentpos newitem
                else (Inr pos, heap))
      else (Inr pos, heap))"
  by pat_completeness auto
termination
  by (relation "measure (\<lambda>(heap, startpos, pos, newitem). pos)") auto

declare py_siftdown_loop.simps [simp del]

definition py_siftdown ::
  "('p::linorder \<times> pyval) list \<Rightarrow> nat \<Rightarrow> nat \<Rightarrow> (unit, ('p \<times> pyval) list) result"
where
  "py_siftdown heap startpos pos =
     (if pos < length heap then
        (let newitem = heap ! pos
         in case py_siftdown_loop heap startpos pos newitem of
              (Inl e, heap') \<Rightarrow> (Inl e, heap')
            | (Inr pos', heap') \<Rightarrow> (Inr (), heap'[pos' := newitem]))
      else (Inl IndexError, heap))"

function py_siftup_loop ::
  "('p::linorder \<times> pyval) list \<Rightarrow> nat \<Rightarrow> nat \<Rightarrow> nat \<Rightarrow> (nat, ('p \<times> pyval) list) result"
where
  "py_siftup_loop heap endpos pos childpos =
     (if childpos < endpos then
        (let rightpos = childpos + 1
         in case (if rightpos < endpos
                  then (case tuple_lt (heap ! childpos) (heap ! rightpos) of
                          Inl e \<Rightarrow> Inl e
                        | Inr smaller \<Rightarrow> Inr (if \<not> smaller then rightpos else childpos))
                  else Inr childpos) of
              Inl e \<Rightarrow> (Inl e, heap)
            | Inr childpos' \<Rightarrow>
                py_siftup_loop (heap[pos := heap ! childpos']) endpos childpos' (2 * childpos' + 1))
      else (Inr pos, heap))"
  by pat_completeness auto
termination
  by (relation "measure (\<lambda>(heap, endpos, pos, childpos). endpos - childpos)")
     (auto split: if_splits sum.splits)

declare py_siftup_loop.simps [simp del]

definition py_siftup ::
  "('p::linorder \<times> pyval) list \<Rightarrow> nat \<Rightarrow> (unit, ('p \<times> pyval) list) result"
where
  "py_siftup heap pos =
     (if pos < length heap then
        (let endpos = length heap;
             startpos = pos;
             newitem = heap ! pos;
             childpos = 2 * pos + 1
         in case py_siftup_loop heap endpos pos childpos of
              (Inl e, heap') \<Rightarrow> (Inl e, heap')
            | (Inr pos', heap') \<Rightarrow> py_siftdown (heap'[pos' := newitem]) startpos pos')
      else (Inl IndexError, heap))"

definition py_heappush ::
  "('p::linorder \<times> pyval) list \<Rightarrow> 'p \<times> pyval \<Rightarrow> (unit, ('p \<times> pyval) list) result"
where
  "py_heappush heap item =
     (let heap' = heap @ [item] in py_siftdown heap' 0 (length heap' - 1))"

definition py_heappop ::
  "('p::linorder \<times> pyval) list \<Rightarrow> ('p \<times> pyval, ('p \<times> pyval) list) result"
where
  "py_heappop heap =
     (case list_pop heap of
        (Inl e, heap1) \<Rightarrow> (Inl e, heap1)
      | (Inr lastelt, heap1) \<Rightarrow>
          if heap1 \<noteq> [] then
            (let returnitem = heap1 ! 0;
                 heap2 = heap1[0 := lastelt]
             in case py_siftup heap2 0 of
                  (Inl e, heap3) \<Rightarrow> (Inl e, heap3)
                | (Inr u, heap3) \<Rightarrow> (Inr returnitem, heap3))
          else (Inr lastelt, heap1))"

fun py_heappush_all ::
  "('p::linorder \<times> pyval) list \<Rightarrow> ('p \<times> pyval) list \<Rightarrow> (unit, ('p \<times> pyval) list) result"
where
  "py_heappush_all heap [] = (Inr (), heap)"
| "py_heappush_all heap (x # xs) =
     (case py_heappush heap x of
        (Inl e, heap') \<Rightarrow> (Inl e, heap')
      | (Inr u, heap') \<Rightarrow> py_heappush_all heap' xs)"

fun py_heappop_n ::
  "('p::linorder \<times> pyval) list \<Rightarrow> nat \<Rightarrow> (('p \<times> pyval) list, ('p \<times> pyval) list) result"
where
  "py_heappop_n heap 0 = (Inr [], heap)"
| "py_heappop_n heap (Suc n) =
     (case py_heappop heap of
        (Inl e, heap') \<Rightarrow> (Inl e, heap')
      | (Inr x, heap') \<Rightarrow>
          (case py_heappop_n heap' n of
             (Inl e, heap'') \<Rightarrow> (Inl e, heap'')
           | (Inr xs, heap'') \<Rightarrow> (Inr (x # xs), heap'')))"

text \<open>
  Entries are comparable when comparing any two of them never raises: entries of different
  priority always are, entries of equal priority when their payloads are \<^verbatim>\<open>==\<close> or have an
  order.
\<close>

definition comparable :: "('p::linorder \<times> pyval) list \<Rightarrow> bool" where
  "comparable xs = (\<forall>a \<in> set xs. \<forall>b \<in> set xs. tuple_lt a b \<noteq> Inl TypeError)"

text \<open>
  On comparable entries Python's tuple order is the order of these keys: the payload's kind,
  then its number or its string.
\<close>

fun payload_key :: "pyval \<Rightarrow> nat \<times> int \<times> string" where
  "payload_key NoneV = (0, 0, [])"
| "payload_key (BoolV b) = (1, if b then 1 else 0, [])"
| "payload_key (IntV i) = (1, i, [])"
| "payload_key (StrV s) = (2, 0, s)"

definition entry_key :: "'p::linorder \<times> pyval \<Rightarrow> 'p \<times> nat \<times> int \<times> string" where
  "entry_key e = (fst e, payload_key (snd e))"

section \<open>Properties of the stack\<close>

lemma stack_pop_simp:
  "stack_pop s = (Inr NoneV, if stack s = [] then s else s\<lparr>stack := butlast (stack s)\<rparr>)"
  by (simp add: stack_pop_def list_pop_def)

lemma stack_push_simp: "snd (stack_push s v) = s\<lparr>stack := stack s @ [v]\<rparr>"
  by (simp add: stack_push_def)

lemma stack_top_simp:
  "stack_top s = (if stack s = [] then Inr NoneV else Inr (last (stack s)), s)"
proof (cases "stack s = []")
  case True
  then show ?thesis by (simp add: stack_top_def)
next
  case False
  then have "0 < length (stack s)" by simp
  then have "getitem (stack s) (- 1) = Inr (last (stack s))"
    using False by (simp add: getitem_def last_conv_nth nat_diff_distrib' Suc_le_eq)
  then show ?thesis using False by (simp add: stack_top_def)
qed

lemma stack_run_append: "stack_run s (as @ bs) = stack_run (stack_run s as) bs"
  by (induction as arbitrary: s) simp_all

lemma stack_size_run:
  "stack_size (stack_run s cs) =
     stack_size s + int (push_count cs) - (int (pop_count cs) - int (noop_pop_count s cs))"
proof (induction cs arbitrary: s)
  case Nil
  then show ?case by simp
next
  case (Cons c cs)
  show ?case
  proof (cases c)
    case (Push v)
    then show ?thesis using Cons.IH [of "snd (stack_push s v)"]
      by (simp add: stack_push_simp stack_size_def)
  next
    case Pop
    then show ?thesis using Cons.IH [of "snd (stack_pop s)"]
      by (cases "stack s = []")
         (simp_all add: stack_pop_simp stack_size_def stack_is_empty_def of_nat_diff Suc_leI)
  qed
qed

lemma settles_run:
  "settles d cs = Some k \<Longrightarrow> stack s = base @ own \<Longrightarrow> length own = d \<Longrightarrow>
   \<exists>ys. length ys = k \<and> stack (stack_run s cs) = base @ ys"
proof (induction cs arbitrary: d s own)
  case Nil
  then show ?case by simp
next
  case (Cons c cs)
  show ?case
  proof (cases c)
    case (Push v)
    have "settles (Suc d) cs = Some k" using Cons.prems(1) Push by simp
    moreover have "stack (snd (stack_push s v)) = base @ (own @ [v])"
      using Cons.prems(2) by (simp add: stack_push_simp)
    moreover have "length (own @ [v]) = Suc d" using Cons.prems(3) by simp
    ultimately have "\<exists>ys. length ys = k \<and> stack (stack_run (snd (stack_push s v)) cs) = base @ ys"
      by (rule Cons.IH)
    then show ?thesis using Push by simp
  next
    case Pop
    then obtain d' where d: "d = Suc d'" "settles d' cs = Some k"
      using Cons.prems(1) by (cases d) simp_all
    then have ne: "own \<noteq> []" using Cons.prems(3) by auto
    have "stack (snd (stack_pop s)) = base @ butlast own"
      using Cons.prems(2) ne by (simp add: stack_pop_simp butlast_append)
    moreover have "length (butlast own) = d'" using Cons.prems(3) d(1) by simp
    ultimately have "\<exists>ys. length ys = k \<and> stack (stack_run (snd (stack_pop s)) cs) = base @ ys"
      by (rule Cons.IH [OF d(2)])
    then show ?thesis using Pop by simp
  qed
qed

lemma stack_top_after_settled:
  assumes "settles 0 bal = Some 0"
  shows "stack (stack_run s ([Push v] @ bal)) = stack s @ [v]"
proof -
  have "stack (snd (stack_push s v)) = (stack s @ [v]) @ []" by (simp add: stack_push_simp)
  from settles_run [OF assms this] show ?thesis by simp
qed

text \<open>
  C7. Emptiness and size agree: on every stack state and on every state of the list-backed
  queue, \<^verbatim>\<open>is_empty()\<close> returns true if and only if \<^verbatim>\<open>size()\<close> returns 0.
\<close>

theorem is_empty_iff_size_zero:
  "stack_is_empty s = (stack_size s = 0) \<and> queue_is_empty q = (queue_size q = 0)"
  by (simp add: stack_is_empty_def stack_size_def queue_is_empty_def queue_size_def)

text \<open>
  C6. Silent absence on the stack: \<^verbatim>\<open>pop()\<close> removes the top element when the stack is not
  empty and changes nothing when it is empty, and in both cases returns \<^verbatim>\<open>None\<close>, never the
  popped value; \<^verbatim>\<open>top()\<close> returns the top element and leaves the stack as it was, or
  \<^verbatim>\<open>None\<close> on an empty stack. Both outcomes are returns (\<open>Inr\<close>): neither call raises.
\<close>

theorem stack_silent_absence:
  "stack_pop s = (Inr NoneV, if stack_is_empty s then s else s\<lparr>stack := butlast (stack s)\<rparr>)
   \<and> stack_top s = (if stack_is_empty s then Inr NoneV else Inr (last (stack s)), s)"
  by (simp add: stack_pop_simp stack_top_simp stack_is_empty_def)

text \<open>
  C5, as stated. The claim reads: \<^verbatim>\<open>size()\<close> equals the push count minus the no-op pops.
  After one push and one pop the stack is empty, one element was pushed and no pop was a
  no-op, so the stated difference is 1 while \<^verbatim>\<open>size()\<close> is 0.
\<close>

theorem stack_size_minus_noop_pops_counterexample:
  "stack_size (stack_run (stack_init None) [Push (IntV 1), Pop])
     \<noteq> int (push_count [Push (IntV 1), Pop])
         - int (noop_pop_count (stack_init None) [Push (IntV 1), Pop])"
  by (simp add: stack_init_def stack_push_def stack_pop_def list_pop_def stack_size_def
        stack_is_empty_def)

text \<open>
  C5, amended. For every sequence of pushes and pops run on an empty stack:
  \<^verbatim>\<open>size()\<close> equals the push count minus the pops that removed an element (all pops but the
  no-op ones); \<^verbatim>\<open>size()\<close> is never negative; after a push of \<open>v\<close> followed by calls that
  pop exactly what they push, \<^verbatim>\<open>top()\<close> returns \<open>v\<close>, the most recently pushed element
  not yet popped, and leaves the stack unchanged; and \<^verbatim>\<open>pop()\<close> on an empty stack changes
  nothing and leaves the size at 0.
\<close>

theorem stack_lifo_accounting:
  "stack_size (stack_run (stack_init None) cs) =
     int (push_count cs) - (int (pop_count cs) - int (noop_pop_count (stack_init None) cs))
   \<and> 0 \<le> stack_size (stack_run (stack_init None) cs)
   \<and> (settles 0 bal = Some 0 \<longrightarrow>
        stack_top (stack_run (stack_init None) (pre @ [Push v] @ bal))
          = (Inr v, stack_run (stack_init None) (pre @ [Push v] @ bal)))
   \<and> (stack_is_empty s \<longrightarrow> stack_pop s = (Inr NoneV, s) \<and> stack_size (snd (stack_pop s)) = 0)"
proof -
  have "stack_size (stack_init None) = 0" by (simp add: stack_init_def stack_size_def)
  then have a: "stack_size (stack_run (stack_init None) cs) =
     int (push_count cs) - (int (pop_count cs) - int (noop_pop_count (stack_init None) cs))"
    using stack_size_run [of "stack_init None" cs] by simp
  have b: "0 \<le> stack_size (stack_run (stack_init None) cs)" by (simp add: stack_size_def)
  have c: "stack_top (stack_run (stack_init None) (pre @ [Push v] @ bal))
          = (Inr v, stack_run (stack_init None) (pre @ [Push v] @ bal))" if "settles 0 bal = Some 0"
  proof -
    have "stack (stack_run (stack_init None) (pre @ [Push v] @ bal))
            = stack (stack_run (stack_init None) pre) @ [v]"
      using stack_top_after_settled [OF that] by (simp only: stack_run_append)
    then show ?thesis by (simp add: stack_top_simp)
  qed
  have d: "stack_pop s = (Inr NoneV, s) \<and> stack_size (snd (stack_pop s)) = 0" if "stack_is_empty s"
    using that by (simp add: stack_pop_simp stack_is_empty_def stack_size_def split: if_splits)
  show ?thesis using a b c d by blast
qed

theorem stack_lifo_accounting_witness:
  "settles 0 [Push (IntV 5), Pop] = Some 0
   \<and> stack_is_empty (stack_init None)
   \<and> stack_size (stack_run (stack_init None)
         [Push (IntV 1), Push (IntV 2), Push (IntV 3), Push (IntV 4), Push (IntV 5), Pop]) = 4
   \<and> fst (stack_top (stack_run (stack_init None)
         ([Push (IntV 1), Push (IntV 2), Push (IntV 3)] @ [Push (IntV 4)] @ [Push (IntV 5), Pop])))
       = Inr (IntV 4)
   \<and> stack_pop (stack_init None) = (Inr NoneV, stack_init None)"
proof -
  have b: "settles 0 [Push (IntV 5), Pop] = Some 0" by simp
  have e: "stack_is_empty (stack_init None)" by (simp add: stack_init_def stack_is_empty_def)
  have n: "noop_pop_count (stack_init None)
         [Push (IntV 1), Push (IntV 2), Push (IntV 3), Push (IntV 4), Push (IntV 5), Pop] = 0"
    by (simp add: stack_init_def stack_push_def stack_is_empty_def)
  show ?thesis
    using b e n
      stack_lifo_accounting [of
        "[Push (IntV 1), Push (IntV 2), Push (IntV 3), Push (IntV 4), Push (IntV 5), Pop]"
        "[Push (IntV 5), Pop]" "[Push (IntV 1), Push (IntV 2), Push (IntV 3)]" "IntV 4"
        "stack_init None"]
    by simp
qed

section \<open>Properties of the two queues\<close>

lemma queue_enqueue_all_simp:
  "queue_enqueue_all q es = (Inr NoneV, q\<lparr>queue.queue := queue.queue q @ es\<rparr>)"
  by (induction es arbitrary: q) (simp_all add: queue_enqueue_def)

lemma queue_dequeue_n_simp:
  "n \<le> length (queue.queue q) \<Longrightarrow>
   queue_dequeue_n q n = (Inr (take n (queue.queue q)), q\<lparr>queue.queue := drop n (queue.queue q)\<rparr>)"
proof (induction n arbitrary: q)
  case 0
  then show ?case by simp
next
  case (Suc n)
  then obtain x xs where x: "queue.queue q = x # xs" by (cases "queue.queue q") auto
  have "queue_dequeue q = (Inr x, q\<lparr>queue.queue := xs\<rparr>)"
    using x by (simp add: queue_dequeue_def list_pop0_def)
  moreover have "n \<le> length (queue.queue (q\<lparr>queue.queue := xs\<rparr>))" using Suc.prems x by simp
  ultimately show ?case using Suc.IH [of "q\<lparr>queue.queue := xs\<rparr>"] x by simp
qed

lemma my_queue_enqueue_all_simp:
  "\<forall>e \<in> set es. type_of e = element_type q \<Longrightarrow>
   my_queue_enqueue_all q es = (Inr NoneV, q\<lparr>my_queue.queue := my_queue.queue q @ es\<rparr>)"
  by (induction es arbitrary: q) (simp_all add: my_queue_enqueue_def)

lemma my_queue_dequeue_n_simp:
  "n \<le> length (my_queue.queue q) \<Longrightarrow>
   my_queue_dequeue_n q n
     = (Inr (take n (my_queue.queue q)), q\<lparr>my_queue.queue := drop n (my_queue.queue q)\<rparr>)"
proof (induction n arbitrary: q)
  case 0
  then show ?case by simp
next
  case (Suc n)
  then obtain x xs where x: "my_queue.queue q = x # xs" by (cases "my_queue.queue q") auto
  have "my_queue_dequeue q = (Inr x, q\<lparr>my_queue.queue := xs\<rparr>)"
    using x by (simp add: my_queue_dequeue_def my_queue_empty_def deque_popleft_def)
  moreover have "n \<le> length (my_queue.queue (q\<lparr>my_queue.queue := xs\<rparr>))"
    using Suc.prems x by simp
  ultimately show ?case using Suc.IH [of "q\<lparr>my_queue.queue := xs\<rparr>"] x by simp
qed

text \<open>
  C1. FIFO law for both queues: enqueueing \<open>es\<close> on a fresh queue and dequeueing as many
  times returns exactly \<open>es\<close>, in order, and leaves the queue as it was constructed. The
  list-backed queue does so for every \<open>es\<close>; the deque-backed queue does so whenever every
  element has the type given to the constructor, and then the two dequeue sequences are equal.
\<close>

theorem fifo_law_both_queues:
  "fst (queue_enqueue_all queue_init es) = Inr NoneV
   \<and> queue_dequeue_n (snd (queue_enqueue_all queue_init es)) (length es) = (Inr es, queue_init)
   \<and> ((\<forall>e \<in> set es. type_of e = t) \<longrightarrow>
        fst (my_queue_enqueue_all (my_queue_init t) es) = Inr NoneV
        \<and> my_queue_dequeue_n (snd (my_queue_enqueue_all (my_queue_init t) es)) (length es)
            = (Inr es, my_queue_init t)
        \<and> fst (my_queue_dequeue_n (snd (my_queue_enqueue_all (my_queue_init t) es)) (length es))
            = fst (queue_dequeue_n (snd (queue_enqueue_all queue_init es)) (length es)))"
proof -
  have a: "queue_enqueue_all queue_init es = (Inr NoneV, \<lparr>queue.queue = es\<rparr>)"
    by (simp add: queue_enqueue_all_simp queue_init_def)
  have b: "queue_dequeue_n \<lparr>queue.queue = es\<rparr> (length es) = (Inr es, queue_init)"
    by (simp add: queue_dequeue_n_simp queue_init_def)
  have c: "my_queue_enqueue_all (my_queue_init t) es
             = (Inr NoneV, \<lparr>element_type = t, my_queue.queue = es\<rparr>)"
    if "\<forall>e \<in> set es. type_of e = t"
    using that by (simp add: my_queue_enqueue_all_simp my_queue_init_def)
  have d: "my_queue_dequeue_n \<lparr>element_type = t, my_queue.queue = es\<rparr> (length es)
             = (Inr es, my_queue_init t)"
    by (simp add: my_queue_dequeue_n_simp my_queue_init_def)
  show ?thesis using a b c d by simp
qed

theorem fifo_law_both_queues_witness:
  "list_all (\<lambda>e. type_of e = StrT) [StrV ''a'', StrV ''b'', StrV ''c'']
   \<and> queue_dequeue_n (snd (queue_enqueue_all queue_init [StrV ''a'', StrV ''b'', StrV ''c'']))
         (length [StrV ''a'', StrV ''b'', StrV ''c''])
       = (Inr [StrV ''a'', StrV ''b'', StrV ''c''], queue_init)
   \<and> my_queue_dequeue_n
         (snd (my_queue_enqueue_all (my_queue_init StrT) [StrV ''a'', StrV ''b'', StrV ''c'']))
         (length [StrV ''a'', StrV ''b'', StrV ''c''])
       = (Inr [StrV ''a'', StrV ''b'', StrV ''c''], my_queue_init StrT)"
proof -
  have t: "\<forall>e \<in> set [StrV ''a'', StrV ''b'', StrV ''c'']. type_of e = StrT" by simp
  show ?thesis
    using t fifo_law_both_queues [of "[StrV ''a'', StrV ''b'', StrV ''c'']" StrT]
    by (simp add: list_all_iff)
qed

text \<open>
  C9. Silent absence on the empty list-backed queue: \<^verbatim>\<open>dequeue()\<close> and \<^verbatim>\<open>front()\<close>
  both return \<^verbatim>\<open>None\<close>, neither raises, and the queue (its list, hence its size) is
  exactly what it was.
\<close>

theorem queue_silent_absence_on_empty:
  "queue_is_empty q \<Longrightarrow>
   queue_dequeue q = (Inr NoneV, q) \<and> queue_front q = (Inr NoneV, q)
   \<and> queue_size (snd (queue_dequeue q)) = queue_size q
   \<and> queue_size (snd (queue_front q)) = queue_size q"
  by (simp add: queue_is_empty_def queue_dequeue_def queue_front_def)

theorem queue_silent_absence_on_empty_witness:
  "queue_is_empty queue_init
   \<and> queue_dequeue queue_init = (Inr NoneV, queue_init)
   \<and> queue_front queue_init = (Inr NoneV, queue_init)"
proof -
  have e: "queue_is_empty queue_init" by (simp add: queue_is_empty_def queue_init_def)
  show ?thesis using e queue_silent_absence_on_empty [OF e] by simp
qed

text \<open>
  C3. Type enforcement of the deque-backed queue: enqueueing a value whose runtime type is
  not the type given to the constructor fails, with the \<^verbatim>\<open>AssertionError\<close> of the source's
  \<^verbatim>\<open>assert\<close> (the error kind the specification names TypeMismatchError), and the queue, its
  deque and its type witness, is exactly what it was before the call.
\<close>

theorem my_queue_enqueue_type_enforced:
  "type_of element \<noteq> element_type q \<Longrightarrow> my_queue_enqueue q element = (Inl AssertionError, q)"
  by (simp add: my_queue_enqueue_def)

theorem my_queue_enqueue_type_enforced_witness:
  "type_of (IntV 5) \<noteq> element_type (snd (my_queue_enqueue (my_queue_init StrT) (StrV ''a'')))
   \<and> my_queue_enqueue (snd (my_queue_enqueue (my_queue_init StrT) (StrV ''a''))) (IntV 5)
       = (Inl AssertionError, \<lparr>element_type = StrT, my_queue.queue = [StrV ''a'']\<rparr>)"
proof -
  have q: "snd (my_queue_enqueue (my_queue_init StrT) (StrV ''a''))
             = \<lparr>element_type = StrT, my_queue.queue = [StrV ''a'']\<rparr>"
    by (simp add: my_queue_enqueue_def my_queue_init_def)
  have t: "type_of (IntV 5) \<noteq> element_type \<lparr>element_type = StrT, my_queue.queue = [StrV ''a'']\<rparr>"
    by simp
  show ?thesis using t my_queue_enqueue_type_enforced [OF t] by (simp add: q)
qed

section \<open>Properties of the priority queue\<close>

subsection \<open>The heap invariant\<close>

lemma is_heap_nth:
  "is_heap h \<Longrightarrow> 0 < i \<Longrightarrow> i < length h \<Longrightarrow> h ! ((i - 1) div 2) \<le> h ! i"
  by (simp add: is_heap_def)

lemma is_heapI:
  "(\<And>i. 0 < i \<Longrightarrow> i < length h \<Longrightarrow> h ! ((i - 1) div 2) \<le> h ! i) \<Longrightarrow> is_heap h"
  by (simp add: is_heap_def)

lemma parent_less: "0 < i \<Longrightarrow> (i - 1) div 2 < (i::nat)"
  by arith

lemma is_heap_update:
  assumes g: "is_heap g" and pos: "pos < length g"
    and up: "0 < pos \<Longrightarrow> g ! ((pos - 1) div 2) \<le> v"
    and down: "\<And>c. 0 < c \<Longrightarrow> c < length g \<Longrightarrow> (c - 1) div 2 = pos \<Longrightarrow> v \<le> g ! c"
  shows "is_heap (g[pos := v])"
proof (rule is_heapI)
  fix i assume i: "0 < i" "i < length (g[pos := v])"
  then have il: "i < length g" by simp
  have pl: "(i - 1) div 2 < i" using i(1) by (rule parent_less)
  show "g[pos := v] ! ((i - 1) div 2) \<le> g[pos := v] ! i"
  proof (cases "i = pos")
    case True
    then have "(i - 1) div 2 \<noteq> pos" using pl by simp
    then show ?thesis using True up i(1) pos by simp
  next
    case False
    show ?thesis
    proof (cases "(i - 1) div 2 = pos")
      case True
      then show ?thesis using False down [OF i(1) il True] pos by simp
    next
      case F2: False
      then show ?thesis using False is_heap_nth [OF g i(1) il] by simp
    qed
  qed
qed

lemma is_heap_root_le:
  assumes "is_heap h" shows "i < length h \<Longrightarrow> h ! 0 \<le> h ! i"
proof (induction i rule: less_induct)
  case (less i)
  show ?case
  proof (cases "i = 0")
    case True then show ?thesis by simp
  next
    case False
    then have i: "0 < i" by simp
    have pl: "(i - 1) div 2 < i" using i by (rule parent_less)
    have "h ! 0 \<le> h ! ((i - 1) div 2)" using less.IH [OF pl] pl less.prems by simp
    also have "\<dots> \<le> h ! i" using is_heap_nth [OF assms i less.prems] .
    finally show ?thesis .
  qed
qed

lemma is_heap_snoc:
  assumes "is_heap h" and "h \<noteq> [] \<Longrightarrow> h ! ((length h - 1) div 2) \<le> v"
  shows "is_heap (h @ [v])"
proof (rule is_heapI)
  fix i assume i: "0 < i" "i < length (h @ [v])"
  have pl: "(i - 1) div 2 < i" using i(1) by (rule parent_less)
  show "(h @ [v]) ! ((i - 1) div 2) \<le> (h @ [v]) ! i"
  proof (cases "i < length h")
    case True
    then show ?thesis using is_heap_nth [OF assms(1) i(1) True] pl by (simp add: nth_append)
  next
    case False
    then have e: "i = length h" using i(2) by simp
    then have "h \<noteq> []" using i(1) by auto
    then show ?thesis using assms(2) e pl by (simp add: nth_append)
  qed
qed

lemma is_heap_butlast:
  assumes "is_heap h" shows "is_heap (butlast h)"
proof (rule is_heapI)
  fix i assume i: "0 < i" "i < length (butlast h)"
  have pl: "(i - 1) div 2 < i" using i(1) by (rule parent_less)
  have il: "i < length h" using i(2) by simp
  show "butlast h ! ((i - 1) div 2) \<le> butlast h ! i"
    using is_heap_nth [OF assms i(1) il] i(2) pl by (simp add: nth_butlast)
qed

lemma mset_move:
  assumes "i < length h" "j < length h" "i \<noteq> j"
  shows "mset (h[j := h ! i, i := x]) = mset (h[j := x])"
proof -
  let ?k = "h[j := x]"
  have A: "?k[j := ?k ! i, i := ?k ! j] = h[j := h ! i, i := x]"
    using assms by simp
  have B: "mset (?k[j := ?k ! i, i := ?k ! j]) = mset ?k"
    by (rule mset_swap) (use assms in simp_all)
  show ?thesis using B unfolding A .
qed


subsection \<open>The two sifting loops\<close>

text \<open>
  Both loops move a hole through the list: the value at \<open>pos\<close> is stale, and the list is a
  heap once some value is put there. \<^verbatim>\<open>_siftdown\<close> moves the hole towards the root until
  the new item fits; \<^verbatim>\<open>_siftup\<close> first moves it down to a leaf along the smaller children.
\<close>

lemma siftdown_loop_correct:
  assumes "pos < length h" and "is_heap (h[pos := v])"
    and "\<And>c. 0 < c \<Longrightarrow> c < length h \<Longrightarrow> (c - 1) div 2 = pos \<Longrightarrow> x \<le> h ! c"
    and "siftdown_loop h 0 pos x = (h', p')"
  shows "is_heap (h'[p' := x]) \<and> length h' = length h \<and> mset (h'[p' := x]) = mset (h[pos := x])"
  using assms
proof (induction pos arbitrary: h v rule: less_induct)
  case (less pos)
  let ?g = "h[pos := v]"
  let ?pp = "(pos - 1) div 2"
  have gl: "pos < length ?g" using less.prems(1) by simp
  have down: "\<And>c. 0 < c \<Longrightarrow> c < length ?g \<Longrightarrow> (c - 1) div 2 = pos \<Longrightarrow> x \<le> ?g ! c"
  proof -
    fix c assume c: "0 < c" "c < length ?g" "(c - 1) div 2 = pos"
    have "c \<noteq> pos" using parent_less [OF c(1)] c(3) by simp
    then show "x \<le> ?g ! c" using less.prems(3) [of c] c by simp
  qed
  show ?case
  proof (cases "0 < pos \<and> x < h ! ?pp")
    case False
    have "siftdown_loop h 0 pos x = (h, pos)"
      by (subst siftdown_loop.simps) (use False in \<open>auto simp: Let_def\<close>)
    then have res: "h' = h" "p' = pos"
      using less.prems(4) by simp_all
    have up: "0 < pos \<Longrightarrow> ?g ! ?pp \<le> x"
    proof -
      assume p: "0 < pos"
      have "?pp \<noteq> pos" using parent_less [OF p] by simp
      then show "?g ! ?pp \<le> x" using False p by simp
    qed
    have "is_heap (?g[pos := x])"
      by (rule is_heap_update [OF less.prems(2) gl up down])
    then show ?thesis using res by simp
  next
    case True
    then have p: "0 < pos" and lt: "x < h ! ?pp" by simp_all
    have ppl: "?pp < pos" using p by (rule parent_less)
    let ?h1 = "h[pos := h ! ?pp]"
    have "siftdown_loop h 0 pos x = siftdown_loop ?h1 0 ?pp x"
      by (subst siftdown_loop.simps) (use True in \<open>simp add: Let_def\<close>)
    then have rec: "siftdown_loop ?h1 0 ?pp x = (h', p')"
      using less.prems(4) by simp
    have l1: "?pp < length ?h1" using ppl less.prems(1) by simp
    have gpp: "?g ! ?pp = h ! ?pp" using ppl by simp
    have gle: "?g ! ?pp \<le> ?g ! pos"
      using is_heap_nth [OF less.prems(2) p gl] .
    have h1: "is_heap (?g[pos := ?g ! ?pp])"
    proof (rule is_heap_update [OF less.prems(2) gl])
      show "?g ! ?pp \<le> ?g ! ?pp" by simp
    next
      fix c assume c: "0 < c" "c < length ?g" "(c - 1) div 2 = pos"
      have "?g ! pos \<le> ?g ! c" using is_heap_nth [OF less.prems(2) c(1) c(2)] c(3) by simp
      then show "?g ! ?pp \<le> ?g ! c" using gle by simp
    qed
    have h1': "is_heap (?h1[?pp := h ! ?pp])"
    proof -
      have "?h1 ! ?pp = h ! ?pp" using ppl by simp
      then have "?h1[?pp := h ! ?pp] = ?h1"
        using l1 by (simp only: list_update_same_conv)
      moreover have "?g[pos := ?g ! ?pp] = ?h1" using gpp by simp
      ultimately show ?thesis using h1 by simp
    qed
    have ch: "\<And>c. 0 < c \<Longrightarrow> c < length ?h1 \<Longrightarrow> (c - 1) div 2 = ?pp \<Longrightarrow> x \<le> ?h1 ! c"
    proof -
      fix c assume c: "0 < c" "c < length ?h1" "(c - 1) div 2 = ?pp"
      show "x \<le> ?h1 ! c"
      proof (cases "c = pos")
        case True
        then show ?thesis using lt less.prems(1) by simp
      next
        case False
        have cl: "c < length ?g" using c(2) by simp
        have "?g ! ?pp \<le> ?g ! c" using is_heap_nth [OF less.prems(2) c(1) cl] c(3) by simp
        then have "h ! ?pp \<le> h ! c" using False gpp by simp
        then show ?thesis using lt False by simp
      qed
    qed
    have IH: "is_heap (h'[p' := x]) \<and> length h' = length ?h1 \<and> mset (h'[p' := x]) = mset (?h1[?pp := x])"
      by (rule less.IH [OF ppl l1 h1' ch rec])
    have "mset (?h1[?pp := x]) = mset (h[pos := x])"
      by (rule mset_move) (use ppl less.prems(1) in simp_all)
    then show ?thesis using IH by simp
  qed
qed

lemma siftup_loop_correct:
  assumes "pos < length h" and "is_heap (h[pos := v])"
    and "siftup_loop h (length h) pos (2 * pos + 1) = (h', p')"
  shows "length h' = length h \<and> p' < length h \<and> length h \<le> 2 * p' + 1 \<and>
         (\<exists>w. is_heap (h'[p' := w])) \<and> (\<forall>x. mset (h'[p' := x]) = mset (h[pos := x]))"
  using assms
proof (induction "length h - pos" arbitrary: h pos v rule: less_induct)
  case less
  let ?g = "h[pos := v]"
  let ?c0 = "2 * pos + 1"
  let ?r = "?c0 + 1"
  have gl: "pos < length ?g" using less.prems(1) by simp
  show ?case
  proof (cases "?c0 < length h")
    case False
    have "siftup_loop h (length h) pos ?c0 = (h, pos)"
      by (subst siftup_loop.simps) (use False in simp)
    then have "h' = h" "p' = pos"
      using less.prems(3) by simp_all
    moreover have "\<exists>w. is_heap (h[pos := w])" using less.prems(2) by (rule exI)
    ultimately show ?thesis using less.prems(1) False by simp
  next
    case True
    define c where "c = (if ?r < length h \<and> \<not> h ! ?c0 < h ! ?r then ?r else ?c0)"
    let ?h1 = "h[pos := h ! c]"
    have "siftup_loop h (length h) pos ?c0 = siftup_loop ?h1 (length ?h1) c (2 * c + 1)"
      by (subst siftup_loop.simps) (use True in \<open>simp add: Let_def c_def\<close>)
    then have rec: "siftup_loop ?h1 (length ?h1) c (2 * c + 1) = (h', p')"
      using less.prems(3) by simp
    have cl: "c < length h" using True by (simp add: c_def)
    have cpos: "pos < c" by (simp add: c_def)
    have cpar: "(c - 1) div 2 = pos" by (simp add: c_def)
    have c0: "0 < c" using cpos by simp
    have cmin: "\<And>d. 0 < d \<Longrightarrow> d < length h \<Longrightarrow> (d - 1) div 2 = pos \<Longrightarrow> h ! c \<le> h ! d"
    proof -
      fix d :: nat assume d: "0 < d" "d < length h" "(d - 1) div 2 = pos"
      then have "d = ?c0 \<or> d = ?r" by arith
      then show "h ! c \<le> h ! d" using d(2) by (auto simp: c_def)
    qed
    have gc: "?g ! c = h ! c" using cpos by simp
    have h1: "is_heap (?g[pos := ?g ! c])"
    proof (rule is_heap_update [OF less.prems(2) gl])
      assume p: "0 < pos"
      have "?g ! ((pos - 1) div 2) \<le> ?g ! pos" using is_heap_nth [OF less.prems(2) p gl] .
      also have "\<dots> \<le> ?g ! c" using is_heap_nth [OF less.prems(2) c0] cl cpar by simp
      finally show "?g ! ((pos - 1) div 2) \<le> ?g ! c" .
    next
      fix d assume d: "0 < d" "d < length ?g" "(d - 1) div 2 = pos"
      have "d \<noteq> pos" using parent_less [OF d(1)] d(3) by simp
      then show "?g ! c \<le> ?g ! d" using cmin [of d] d gc by simp
    qed
    have h1': "is_heap (?h1[c := h ! c])"
    proof -
      have "?h1 ! c = h ! c" using cpos by simp
      then have "?h1[c := h ! c] = ?h1"
        using cl by (simp only: list_update_same_conv length_list_update)
      moreover have "?g[pos := ?g ! c] = ?h1" using gc by simp
      ultimately show ?thesis using h1 by simp
    qed
    have m: "length ?h1 - c < length h - pos" using cl cpos by simp
    have cl1: "c < length ?h1" using cl by simp
    have IH: "length h' = length ?h1 \<and> p' < length ?h1 \<and> length ?h1 \<le> 2 * p' + 1 \<and>
         (\<exists>w. is_heap (h'[p' := w])) \<and> (\<forall>x. mset (h'[p' := x]) = mset (?h1[c := x]))"
      by (rule less.hyps [OF m cl1 h1' rec])
    have "\<And>x. mset (?h1[c := x]) = mset (h[pos := x])"
      by (rule mset_move) (use cl cpos less.prems(1) in simp_all)
    then show ?thesis using IH by simp
  qed
qed

subsection \<open>\<^verbatim>\<open>heappush\<close> and \<^verbatim>\<open>heappop\<close>\<close>

lemma siftdown_correct:
  assumes pos: "pos < length h" and hp: "is_heap (h[pos := v])" and leaf: "length h \<le> 2 * pos + 1"
  shows "\<exists>h'. siftdown h 0 pos = (Inr (), h') \<and> is_heap h' \<and> mset h' = mset h"
proof -
  obtain h1 p1 where loop: "siftdown_loop h 0 pos (h ! pos) = (h1, p1)"
    by (cases "siftdown_loop h 0 pos (h ! pos)")
  have ch: "\<And>c. 0 < c \<Longrightarrow> c < length h \<Longrightarrow> (c - 1) div 2 = pos \<Longrightarrow> h ! pos \<le> h ! c"
  proof -
    fix c :: nat assume "0 < c" "c < length h" "(c - 1) div 2 = pos"
    then have False using leaf by arith
    then show "h ! pos \<le> h ! c" ..
  qed
  have r: "is_heap (h1[p1 := h ! pos]) \<and> length h1 = length h
           \<and> mset (h1[p1 := h ! pos]) = mset (h[pos := h ! pos])"
    by (rule siftdown_loop_correct [OF pos hp ch loop])
  have "siftdown h 0 pos = (Inr (), h1[p1 := h ! pos])"
    using pos loop by (simp add: siftdown_def Let_def)
  then show ?thesis using r by simp
qed

lemma heappush_correct:
  assumes "is_heap h"
  shows "\<exists>h'. heappush h x = (Inr (), h') \<and> is_heap h' \<and> mset h' = add_mset x (mset h)"
proof -
  let ?H = "h @ [x]"
  define v where "v = (if h = [] then x else h ! ((length h - 1) div 2))"
  have "is_heap (h @ [v])"
    by (rule is_heap_snoc [OF assms]) (simp add: v_def)
  then have hp: "is_heap (?H[length h := v])" by simp
  have pos: "length h < length ?H" by simp
  have leaf: "length ?H \<le> 2 * length h + 1" by simp
  obtain h' where "siftdown ?H 0 (length h) = (Inr (), h')" "is_heap h'" "mset h' = mset ?H"
    using siftdown_correct [OF pos hp leaf] by blast
  then show ?thesis by (simp add: heappush_def Let_def)
qed

lemma siftup_correct:
  assumes ne: "h \<noteq> []" and hp: "is_heap (h[0 := v])"
  shows "\<exists>h'. siftup h 0 = (Inr (), h') \<and> is_heap h' \<and> mset h' = mset h"
proof -
  have pos: "0 < length h" using ne by simp
  obtain h1 p1 where loop: "siftup_loop h (length h) 0 (2 * 0 + 1) = (h1, p1)"
    by (cases "siftup_loop h (length h) 0 (2 * 0 + 1)")
  have r: "length h1 = length h \<and> p1 < length h \<and> length h \<le> 2 * p1 + 1 \<and>
         (\<exists>w. is_heap (h1[p1 := w])) \<and> (\<forall>x. mset (h1[p1 := x]) = mset (h[0 := x]))"
    by (rule siftup_loop_correct [OF pos hp loop])
  then obtain w where w: "is_heap (h1[p1 := w])" by blast
  let ?H = "h1[p1 := h ! 0]"
  have p1: "p1 < length ?H" using r by simp
  have hw: "is_heap (?H[p1 := w])" using w by simp
  have leaf: "length ?H \<le> 2 * p1 + 1" using r by simp
  obtain h' where h': "siftdown ?H 0 p1 = (Inr (), h')" "is_heap h'" "mset h' = mset ?H"
    using siftdown_correct [OF p1 hw leaf] by blast
  have "mset ?H = mset (h[0 := h ! 0])" using r by blast
  then have m: "mset ?H = mset h" by simp
  have "siftup h 0 = siftdown ?H 0 p1"
    using pos loop by (simp add: siftup_def Let_def)
  then show ?thesis using h' m by simp
qed

lemma heappop_correct:
  assumes hp: "is_heap h" and ne: "h \<noteq> []"
  shows "\<exists>h'. heappop h = (Inr (h ! 0), h') \<and> is_heap h' \<and> mset h = add_mset (h ! 0) (mset h')"
proof (cases "butlast h = []")
  case True
  then have "length h = 1" using ne by (cases h) (auto split: if_splits)
  then obtain a where a: "h = [a]" by (cases h) auto
  then have "heappop h = (Inr a, [])" by (simp add: heappop_def list_pop_def)
  then show ?thesis using a by (simp add: is_heap_def)
next
  case False
  let ?h1 = "butlast h"
  let ?h2 = "?h1[0 := last h]"
  have h1: "is_heap ?h1" using hp by (rule is_heap_butlast)
  have l1: "0 < length ?h1" using False by (simp del: length_butlast)
  have r0: "?h1 ! 0 = h ! 0" using l1 by (simp add: nth_butlast)
  have ne2: "?h2 \<noteq> []" using False by simp
  have "?h2[0 := ?h1 ! 0] = ?h1" by simp
  then have hp2: "is_heap (?h2[0 := ?h1 ! 0])" using h1 by simp
  obtain h' where h': "siftup ?h2 0 = (Inr (), h')" "is_heap h'" "mset h' = mset ?h2"
    using siftup_correct [OF ne2 hp2] by blast
  have pop: "heappop h = (Inr (h ! 0), h')"
    using ne False h'(1) r0 by (simp add: heappop_def list_pop_def Let_def)
  have "mset ?h2 = add_mset (last h) (mset ?h1 - {#?h1 ! 0#})"
    using l1 by (simp add: mset_update)
  moreover have "?h1 ! 0 \<in># mset ?h1" using nth_mem [OF l1] by simp
  then have "add_mset (?h1 ! 0) (mset ?h1 - {#?h1 ! 0#}) = mset ?h1" by (rule insert_DiffM)
  ultimately have "add_mset (h ! 0) (mset h') = add_mset (last h) (mset ?h1)"
    using h'(3) r0 by (simp add: add_mset_commute)
  also have "\<dots> = mset (?h1 @ [last h])" by simp
  also have "\<dots> = mset h" using ne by simp
  finally show ?thesis using pop h'(2) by simp
qed

lemma is_heap_Nil: "is_heap []"
  by (simp add: is_heap_def)

lemma is_heap_root_min:
  assumes "is_heap h" and "x \<in> set h" shows "h ! 0 \<le> x"
proof -
  obtain i where "i < length h" "h ! i = x" using assms(2) by (auto simp: in_set_conv_nth)
  then show ?thesis using is_heap_root_le [OF assms(1), of i] by simp
qed

lemma heappush_all_correct:
  "is_heap h \<Longrightarrow>
   \<exists>h'. heappush_all h xs = (Inr (), h') \<and> is_heap h' \<and> mset h' = mset h + mset xs"
proof (induction xs arbitrary: h)
  case Nil
  then show ?case by simp
next
  case (Cons x xs)
  obtain h1 where h1: "heappush h x = (Inr (), h1)" "is_heap h1" "mset h1 = add_mset x (mset h)"
    using heappush_correct [OF Cons.prems] by blast
  obtain h' where "heappush_all h1 xs = (Inr (), h')" "is_heap h'" "mset h' = mset h1 + mset xs"
    using Cons.IH [OF h1(2)] by blast
  then show ?case using h1 by simp
qed

lemma heappop_n_correct:
  "is_heap h \<Longrightarrow> k \<le> length h \<Longrightarrow>
   \<exists>ys h'. heappop_n h k = (Inr ys, h') \<and> is_heap h' \<and> mset h = mset ys + mset h' \<and>
           sorted ys \<and> (\<forall>y \<in> set ys. \<forall>z \<in> set h'. y \<le> z) \<and> length ys = k"
proof (induction k arbitrary: h)
  case 0
  then show ?case by simp
next
  case (Suc k)
  then have ne: "h \<noteq> []" by auto
  obtain h1 where h1: "heappop h = (Inr (h ! 0), h1)" "is_heap h1"
      "mset h = add_mset (h ! 0) (mset h1)"
    using heappop_correct [OF Suc.prems(1) ne] by blast
  have "size (mset h) = Suc (size (mset h1))" using h1(3) by simp
  then have len: "length h = Suc (length h1)" by simp
  then have k: "k \<le> length h1" using Suc.prems(2) by simp
  obtain ys h' where r: "heappop_n h1 k = (Inr ys, h')" "is_heap h'" "mset h1 = mset ys + mset h'"
      "sorted ys" "\<forall>y \<in> set ys. \<forall>z \<in> set h'. y \<le> z" "length ys = k"
    using Suc.IH [OF h1(2) k] by blast
  have sub: "set ys \<union> set h' \<subseteq> set h"
  proof -
    have "set_mset (mset h) = insert (h ! 0) (set_mset (mset ys + mset h'))"
      using h1(3) r(3) by simp
    then show ?thesis by auto
  qed
  have low: "\<And>z. z \<in> set ys \<union> set h' \<Longrightarrow> h ! 0 \<le> z"
    using is_heap_root_min [OF Suc.prems(1)] sub by blast
  have "heappop_n h (Suc k) = (Inr (h ! 0 # ys), h')" using h1(1) r(1) by simp
  moreover have "sorted (h ! 0 # ys)" using r(4) low by simp
  moreover have "mset h = mset (h ! 0 # ys) + mset h'" using h1(3) r(3) by simp
  moreover have "\<forall>y \<in> set (h ! 0 # ys). \<forall>z \<in> set h'. y \<le> z" using r(5) low by simp
  ultimately show ?case using r(2,6) by simp
qed

lemma heappop_n_sort:
  assumes "is_heap h" and "k \<le> length h"
  shows "\<exists>h'. heappop_n h k = (Inr (take k (sort h)), h') \<and> is_heap h'
              \<and> mset h' = mset (drop k (sort h))"
proof -
  obtain ys h' where r: "heappop_n h k = (Inr ys, h')" "is_heap h'" "mset h = mset ys + mset h'"
      "sorted ys" "\<forall>y \<in> set ys. \<forall>z \<in> set h'. y \<le> z" "length ys = k"
    using heappop_n_correct [OF assms] by blast
  have "mset (ys @ sort h') = mset h" using r(3) by simp
  moreover have "sorted (ys @ sort h')" using r(4,5) by (simp add: sorted_append)
  ultimately have s: "sort h = ys @ sort h'" by (rule properties_for_sort)
  have "take k (sort h) = ys" using s r(6) by simp
  moreover have "drop k (sort h) = sort h'" using s r(6) by simp
  ultimately show ?thesis using r(1,2) by simp
qed

lemma fst_mono_lex:
  fixes a b :: "'p::linorder \<times> 'v::linorder"
  shows "a \<le> b \<Longrightarrow> fst a \<le> fst b"
  by (auto simp: less_eq_prod_def)

lemma sorted_map_fst_lex:
  fixes ys :: "('p::linorder \<times> 'v::linorder) list"
  shows "sorted ys \<Longrightarrow> sorted (map fst ys)"
  by (induction ys) (auto simp: fst_mono_lex)

lemma sort_cong_mset: "mset h = mset xs \<Longrightarrow> sort h = sort xs"
  by (rule properties_for_sort) simp_all

lemma heappush_all_fresh:
  "\<exists>h. heappush_all [] xs = (Inr (), h) \<and> is_heap h \<and> mset h = mset xs \<and> length h = length xs"
proof -
  obtain h where h: "heappush_all [] xs = (Inr (), h)" "is_heap h" "mset h = mset [] + mset xs"
    using heappush_all_correct [OF is_heap_Nil, of xs] by blast
  have "size (mset h) = size (mset xs)" using h(3) by simp
  then have "length h = length xs" by simp
  then show ?thesis using h by simp
qed

subsection \<open>Entries with arbitrary payloads\<close>

text \<open>
  On a set of entries where no comparison raises, the functions on entries run in step
  with the functions on totally ordered items, applied to the entries' keys; they never raise
  and only move entries around.
\<close>

lemma tuple_lt_key:
  "tuple_lt a b \<noteq> Inl TypeError \<Longrightarrow> tuple_lt a b = Inr (entry_key a < entry_key b)"
proof -
  obtain p1 v1 p2 v2 where ab: "a = (p1, v1)" "b = (p2, v2)" by (cases a, cases b) auto
  assume "tuple_lt a b \<noteq> Inl TypeError"
  then show ?thesis unfolding ab
    by (cases v1; cases v2) (auto simp: entry_key_def less_prod_def split: if_splits)
qed

lemma fst_entry_key: "fst (entry_key e) = fst e"
  by (simp add: entry_key_def)

lemma py_siftdown_loop_sim:
  assumes ok: "\<And>a b. a \<in> A \<Longrightarrow> b \<in> A \<Longrightarrow> tuple_lt a b = Inr (entry_key a < entry_key b)"
    and "set h \<subseteq> A" and "x \<in> A" and "pos < length h"
  shows "\<exists>p' h'. py_siftdown_loop h s pos x = (Inr p', h')
           \<and> siftdown_loop (map entry_key h) s pos (entry_key x) = (map entry_key h', p')
           \<and> set h' \<subseteq> set h \<and> length h' = length h \<and> p' < length h
           \<and> mset (h'[p' := x]) = mset (h[pos := x])"
  using assms(2-)
proof (induction pos arbitrary: h rule: less_induct)
  case (less pos)
  let ?pp = "(pos - 1) div 2"
  show ?case
  proof (cases "s < pos")
    case False
    have "py_siftdown_loop h s pos x = (Inr pos, h)"
      by (subst py_siftdown_loop.simps) (use False in simp)
    moreover have "siftdown_loop (map entry_key h) s pos (entry_key x) = (map entry_key h, pos)"
      by (subst siftdown_loop.simps) (use False in simp)
    ultimately show ?thesis using less.prems by simp
  next
    case True
    then have ppl: "?pp < pos" by arith
    then have ppn: "?pp < length h" using less.prems(3) by simp
    have par: "h ! ?pp \<in> A" using less.prems(1) nth_mem [OF ppn] by blast
    have cmp: "tuple_lt x (h ! ?pp) = Inr (entry_key x < entry_key (h ! ?pp))"
      using ok [OF less.prems(2) par] .
    show ?thesis
    proof (cases "entry_key x < entry_key (h ! ?pp)")
      case F: False
      have "py_siftdown_loop h s pos x = (Inr pos, h)"
        by (subst py_siftdown_loop.simps) (use True cmp F in \<open>simp add: Let_def\<close>)
      moreover have "siftdown_loop (map entry_key h) s pos (entry_key x) = (map entry_key h, pos)"
        by (subst siftdown_loop.simps) (use True F ppn in \<open>simp add: Let_def\<close>)
      ultimately show ?thesis using less.prems by simp
    next
      case T: True
      let ?h1 = "h[pos := h ! ?pp]"
      have a: "py_siftdown_loop h s pos x = py_siftdown_loop ?h1 s ?pp x"
        by (subst py_siftdown_loop.simps) (use True cmp T in \<open>simp add: Let_def\<close>)
      have b: "siftdown_loop (map entry_key h) s pos (entry_key x)
                 = siftdown_loop (map entry_key ?h1) s ?pp (entry_key x)"
        by (subst siftdown_loop.simps) (use True T ppn in \<open>simp add: Let_def map_update\<close>)
      have sub1: "set ?h1 \<subseteq> set h"
        using set_update_subset_insert [of h pos "h ! ?pp"] nth_mem [OF ppn] by auto
      then have s1: "set ?h1 \<subseteq> A" using less.prems(1) by blast
      have l1: "?pp < length ?h1" using ppn by simp
      obtain p' h' where r: "py_siftdown_loop ?h1 s ?pp x = (Inr p', h')"
          "siftdown_loop (map entry_key ?h1) s ?pp (entry_key x) = (map entry_key h', p')"
          "set h' \<subseteq> set ?h1" "length h' = length ?h1" "p' < length ?h1"
          "mset (h'[p' := x]) = mset (?h1[?pp := x])"
        using less.IH [OF ppl s1 less.prems(2) l1] by blast
      have "mset (?h1[?pp := x]) = mset (h[pos := x])"
        by (rule mset_move) (use ppl less.prems(3) in simp_all)
      then show ?thesis using a b r sub1 by auto
    qed
  qed
qed

lemma py_siftup_loop_sim:
  assumes ok: "\<And>a b. a \<in> A \<Longrightarrow> b \<in> A \<Longrightarrow> tuple_lt a b = Inr (entry_key a < entry_key b)"
    and "set h \<subseteq> A" and "pos < length h"
  shows "\<exists>p' h'. py_siftup_loop h (length h) pos (2 * pos + 1) = (Inr p', h')
           \<and> siftup_loop (map entry_key h) (length h) pos (2 * pos + 1) = (map entry_key h', p')
           \<and> set h' \<subseteq> set h \<and> length h' = length h \<and> p' < length h
           \<and> (\<forall>x. mset (h'[p' := x]) = mset (h[pos := x]))"
  using assms(2-)
proof (induction "length h - pos" arbitrary: h pos rule: less_induct)
  case less
  let ?c0 = "2 * pos + 1"
  let ?r = "?c0 + 1"
  show ?case
  proof (cases "?c0 < length h")
    case False
    have "py_siftup_loop h (length h) pos ?c0 = (Inr pos, h)"
      by (subst py_siftup_loop.simps) (use False in simp)
    moreover have "siftup_loop (map entry_key h) (length h) pos ?c0 = (map entry_key h, pos)"
      by (subst siftup_loop.simps) (use False in simp)
    ultimately show ?thesis using less.prems by simp
  next
    case True
    define c where "c = (if ?r < length h \<and> \<not> entry_key (h ! ?c0) < entry_key (h ! ?r)
                         then ?r else ?c0)"
    have cl: "c < length h" using True by (simp add: c_def)
    have cpos: "pos < c" by (simp add: c_def)
    have cmp: "tuple_lt (h ! ?c0) (h ! ?r) = Inr (entry_key (h ! ?c0) < entry_key (h ! ?r))"
      if "?r < length h"
    proof -
      have "h ! ?c0 \<in> A" using less.prems(1) nth_mem [OF True] by blast
      moreover have "h ! ?r \<in> A" using less.prems(1) nth_mem [OF that] by blast
      ultimately show ?thesis by (rule ok)
    qed
    let ?h1 = "h[pos := h ! c]"
    have a: "py_siftup_loop h (length h) pos ?c0 = py_siftup_loop ?h1 (length ?h1) c (2 * c + 1)"
      by (subst py_siftup_loop.simps) (use True cmp in \<open>auto simp: Let_def c_def\<close>)
    have b: "siftup_loop (map entry_key h) (length h) pos ?c0
               = siftup_loop (map entry_key ?h1) (length ?h1) c (2 * c + 1)"
      by (subst siftup_loop.simps) (use True in \<open>auto simp: Let_def c_def map_update\<close>)
    have sub1: "set ?h1 \<subseteq> set h"
      using set_update_subset_insert [of h pos "h ! c"] nth_mem [OF cl] by auto
    then have s1: "set ?h1 \<subseteq> A" using less.prems(1) by blast
    have m: "length ?h1 - c < length h - pos" using cl cpos by simp
    have cl1: "c < length ?h1" using cl by simp
    obtain p' h' where r: "py_siftup_loop ?h1 (length ?h1) c (2 * c + 1) = (Inr p', h')"
        "siftup_loop (map entry_key ?h1) (length ?h1) c (2 * c + 1) = (map entry_key h', p')"
        "set h' \<subseteq> set ?h1" "length h' = length ?h1" "p' < length ?h1"
        "\<forall>x. mset (h'[p' := x]) = mset (?h1[c := x])"
      using less.hyps [OF m s1 cl1] by blast
    have "\<And>x. mset (?h1[c := x]) = mset (h[pos := x])"
      by (rule mset_move) (use cl cpos less.prems(2) in simp_all)
    then show ?thesis using a b r sub1 by auto
  qed
qed

lemma py_siftdown_sim:
  assumes ok: "\<And>a b. a \<in> A \<Longrightarrow> b \<in> A \<Longrightarrow> tuple_lt a b = Inr (entry_key a < entry_key b)"
    and sub: "set h \<subseteq> A" and pos: "pos < length h"
  shows "\<exists>h'. py_siftdown h s pos = (Inr (), h')
           \<and> siftdown (map entry_key h) s pos = (Inr (), map entry_key h')
           \<and> mset h' = mset h"
proof -
  have x: "h ! pos \<in> A" using sub nth_mem [OF pos] by blast
  obtain p' h' where r: "py_siftdown_loop h s pos (h ! pos) = (Inr p', h')"
      "siftdown_loop (map entry_key h) s pos (entry_key (h ! pos)) = (map entry_key h', p')"
      "mset (h'[p' := h ! pos]) = mset (h[pos := h ! pos])"
    using py_siftdown_loop_sim [OF ok sub x pos, of s] by blast
  have "py_siftdown h s pos = (Inr (), h'[p' := h ! pos])"
    using pos r(1) by (simp add: py_siftdown_def Let_def)
  moreover have "siftdown (map entry_key h) s pos = (Inr (), map entry_key (h'[p' := h ! pos]))"
    using pos r(2) by (simp add: siftdown_def Let_def map_update)
  ultimately show ?thesis using r(3) by simp
qed

lemma py_siftup_sim:
  assumes ok: "\<And>a b. a \<in> A \<Longrightarrow> b \<in> A \<Longrightarrow> tuple_lt a b = Inr (entry_key a < entry_key b)"
    and sub: "set h \<subseteq> A" and pos: "pos < length h"
  shows "\<exists>h'. py_siftup h pos = (Inr (), h')
           \<and> siftup (map entry_key h) pos = (Inr (), map entry_key h')
           \<and> mset h' = mset h"
proof -
  have x: "h ! pos \<in> A" using sub nth_mem [OF pos] by blast
  obtain p1 h1 where r: "py_siftup_loop h (length h) pos (2 * pos + 1) = (Inr p1, h1)"
      "siftup_loop (map entry_key h) (length h) pos (2 * pos + 1) = (map entry_key h1, p1)"
      "set h1 \<subseteq> set h" "length h1 = length h" "p1 < length h"
      "\<forall>x. mset (h1[p1 := x]) = mset (h[pos := x])"
    using py_siftup_loop_sim [OF ok sub pos] by blast
  let ?H = "h1[p1 := h ! pos]"
  have "set ?H \<subseteq> insert (h ! pos) (set h1)" by (rule set_update_subset_insert)
  then have sH: "set ?H \<subseteq> A" using r(3) sub x by blast
  have pH: "p1 < length ?H" using r(4,5) by simp
  obtain h' where d: "py_siftdown ?H pos p1 = (Inr (), h')"
      "siftdown (map entry_key ?H) pos p1 = (Inr (), map entry_key h')" "mset h' = mset ?H"
    using py_siftdown_sim [OF ok sH pH, of pos] by blast
  have "mset ?H = mset (h[pos := h ! pos])" using r(6) by blast
  then have m: "mset h' = mset h" using d(3) by simp
  have "py_siftup h pos = py_siftdown ?H pos p1"
    using pos r(1) by (simp add: py_siftup_def Let_def)
  moreover have "siftup (map entry_key h) pos = siftdown (map entry_key ?H) pos p1"
    using pos r(2) by (simp add: siftup_def Let_def map_update)
  ultimately show ?thesis using d m by simp
qed

lemma py_heappush_sim:
  assumes ok: "\<And>a b. a \<in> A \<Longrightarrow> b \<in> A \<Longrightarrow> tuple_lt a b = Inr (entry_key a < entry_key b)"
    and sub: "set h \<subseteq> A" and x: "x \<in> A"
  shows "\<exists>h'. py_heappush h x = (Inr (), h')
           \<and> heappush (map entry_key h) (entry_key x) = (Inr (), map entry_key h')
           \<and> mset h' = add_mset x (mset h)"
proof -
  let ?H = "h @ [x]"
  have sH: "set ?H \<subseteq> A" using sub x by simp
  have pH: "length h < length ?H" by simp
  obtain h' where d: "py_siftdown ?H 0 (length h) = (Inr (), h')"
      "siftdown (map entry_key ?H) 0 (length h) = (Inr (), map entry_key h')" "mset h' = mset ?H"
    using py_siftdown_sim [OF ok sH pH, of 0] by blast
  then show ?thesis by (simp add: py_heappush_def heappush_def Let_def)
qed

lemma py_heappop_sim:
  assumes ok: "\<And>a b. a \<in> A \<Longrightarrow> b \<in> A \<Longrightarrow> tuple_lt a b = Inr (entry_key a < entry_key b)"
    and sub: "set h \<subseteq> A" and ne: "h \<noteq> []"
  shows "\<exists>h'. py_heappop h = (Inr (h ! 0), h')
           \<and> heappop (map entry_key h) = (Inr (entry_key (h ! 0)), map entry_key h')
           \<and> mset h = add_mset (h ! 0) (mset h')"
proof (cases "butlast h = []")
  case True
  then have "length h = 1" using ne by (cases h) (auto split: if_splits)
  then obtain a where a: "h = [a]" by (cases h) auto
  then show ?thesis by (simp add: py_heappop_def heappop_def list_pop_def)
next
  case False
  let ?h1 = "butlast h"
  let ?h2 = "?h1[0 := last h]"
  have l1: "0 < length ?h1" using False by (simp del: length_butlast)
  have r0: "?h1 ! 0 = h ! 0" using l1 by (simp add: nth_butlast)
  have "set ?h2 \<subseteq> insert (last h) (set ?h1)" by (rule set_update_subset_insert)
  moreover have "set ?h1 \<subseteq> set h" by (auto dest: in_set_butlastD)
  moreover have "last h \<in> set h" using ne by (rule last_in_set)
  ultimately have s2: "set ?h2 \<subseteq> A" using sub by blast
  have l2: "0 < length ?h2" using l1 by simp
  obtain h' where u: "py_siftup ?h2 0 = (Inr (), h')"
      "siftup (map entry_key ?h2) 0 = (Inr (), map entry_key h')" "mset h' = mset ?h2"
    using py_siftup_sim [OF ok s2 l2] by blast
  have pop: "py_heappop h = (Inr (h ! 0), h')"
    using ne False u(1) r0 by (simp add: py_heappop_def list_pop_def Let_def)
  have "map entry_key ?h2 = (butlast (map entry_key h))[0 := last (map entry_key h)]"
    using ne by (simp add: map_update map_butlast last_map)
  then have lin: "heappop (map entry_key h) = (Inr (entry_key (h ! 0)), map entry_key h')"
    using ne False u(2) r0 l1
    by (simp add: heappop_def list_pop_def Let_def map_butlast [symmetric] del: length_butlast)
  have "mset ?h2 = add_mset (last h) (mset ?h1 - {#?h1 ! 0#})"
    using l1 by (simp add: mset_update)
  moreover have "?h1 ! 0 \<in># mset ?h1" using nth_mem [OF l1] by simp
  then have "add_mset (?h1 ! 0) (mset ?h1 - {#?h1 ! 0#}) = mset ?h1" by (rule insert_DiffM)
  ultimately have "add_mset (h ! 0) (mset h') = add_mset (last h) (mset ?h1)"
    using u(3) r0 by (simp add: add_mset_commute)
  also have "\<dots> = mset (?h1 @ [last h])" by simp
  also have "\<dots> = mset h" using ne by simp
  finally show ?thesis using pop lin by simp
qed

lemma comparable_key:
  "comparable xs \<Longrightarrow> a \<in> set xs \<Longrightarrow> b \<in> set xs \<Longrightarrow>
   tuple_lt a b = Inr (entry_key a < entry_key b)"
  by (rule tuple_lt_key) (simp add: comparable_def)

lemma py_heappush_all_sim:
  assumes ok: "\<And>a b. a \<in> A \<Longrightarrow> b \<in> A \<Longrightarrow> tuple_lt a b = Inr (entry_key a < entry_key b)"
  shows "set h \<subseteq> A \<Longrightarrow> set xs \<subseteq> A \<Longrightarrow>
     \<exists>h'. py_heappush_all h xs = (Inr (), h')
       \<and> heappush_all (map entry_key h) (map entry_key xs) = (Inr (), map entry_key h')
       \<and> mset h' = mset h + mset xs"
proof (induction xs arbitrary: h)
  case Nil
  then show ?case by simp
next
  case (Cons x xs)
  have x: "x \<in> A" and xs: "set xs \<subseteq> A" using Cons.prems(2) by simp_all
  obtain h1 where h1: "py_heappush h x = (Inr (), h1)"
      "heappush (map entry_key h) (entry_key x) = (Inr (), map entry_key h1)"
      "mset h1 = add_mset x (mset h)"
    using py_heappush_sim [OF ok Cons.prems(1) x] by blast
  have "set_mset (mset h1) = insert x (set h)" using h1(3) by simp
  then have s1: "set h1 \<subseteq> A" using Cons.prems(1) x by simp
  obtain h' where "py_heappush_all h1 xs = (Inr (), h')"
      "heappush_all (map entry_key h1) (map entry_key xs) = (Inr (), map entry_key h')"
      "mset h' = mset h1 + mset xs"
    using Cons.IH [OF s1 xs] by blast
  then show ?case using h1 by simp
qed

lemma py_heappop_n_sim:
  assumes ok: "\<And>a b. a \<in> A \<Longrightarrow> b \<in> A \<Longrightarrow> tuple_lt a b = Inr (entry_key a < entry_key b)"
  shows "set h \<subseteq> A \<Longrightarrow> k \<le> length h \<Longrightarrow>
     \<exists>ys h'. py_heappop_n h k = (Inr ys, h')
       \<and> heappop_n (map entry_key h) k = (Inr (map entry_key ys), map entry_key h')
       \<and> mset h = mset ys + mset h' \<and> length ys = k"
proof (induction k arbitrary: h)
  case 0
  then show ?case by simp
next
  case (Suc k)
  then have ne: "h \<noteq> []" by auto
  obtain h1 where h1: "py_heappop h = (Inr (h ! 0), h1)"
      "heappop (map entry_key h) = (Inr (entry_key (h ! 0)), map entry_key h1)"
      "mset h = add_mset (h ! 0) (mset h1)"
    using py_heappop_sim [OF ok Suc.prems(1) ne] by blast
  have "set_mset (mset h) = insert (h ! 0) (set h1)" using h1(3) by simp
  then have s1: "set h1 \<subseteq> A" using Suc.prems(1) by auto
  have "size (mset h) = Suc (size (mset h1))" using h1(3) by simp
  then have k: "k \<le> length h1" using Suc.prems(2) by simp
  obtain ys h' where "py_heappop_n h1 k = (Inr ys, h')"
      "heappop_n (map entry_key h1) k = (Inr (map entry_key ys), map entry_key h')"
      "mset h1 = mset ys + mset h'" "length ys = k"
    using Suc.IH [OF s1 k] by blast
  then show ?case using h1 by simp
qed

lemma py_heappop_n_underflow:
  assumes ok: "\<And>a b. a \<in> A \<Longrightarrow> b \<in> A \<Longrightarrow> tuple_lt a b = Inr (entry_key a < entry_key b)"
  shows "set h \<subseteq> A \<Longrightarrow> length h < k \<Longrightarrow> py_heappop_n h k = (Inl IndexError, [])"
proof (induction k arbitrary: h)
  case 0
  then show ?case by simp
next
  case (Suc k)
  show ?case
  proof (cases "h = []")
    case True
    then show ?thesis by (simp add: py_heappop_def list_pop_def)
  next
    case False
    obtain h1 where h1: "py_heappop h = (Inr (h ! 0), h1)"
        "mset h = add_mset (h ! 0) (mset h1)"
      using py_heappop_sim [OF ok Suc.prems(1) False] by blast
    have "set_mset (mset h) = insert (h ! 0) (set h1)" using h1(2) by simp
    then have s1: "set h1 \<subseteq> A" using Suc.prems(1) by auto
    have "size (mset h) = Suc (size (mset h1))" using h1(2) by simp
    then have "length h1 < k" using Suc.prems(2) by simp
    from Suc.IH [OF s1 this] h1(1) show ?thesis by simp
  qed
qed

lemma py_heappop_n_add:
  "py_heappop_n h (i + j) =
     (case py_heappop_n h i of
        (Inl e, h1) \<Rightarrow> (Inl e, h1)
      | (Inr ys, h1) \<Rightarrow>
          (case py_heappop_n h1 j of
             (Inl e, h2) \<Rightarrow> (Inl e, h2)
           | (Inr zs, h2) \<Rightarrow> (Inr (ys @ zs), h2)))"
  by (induction i arbitrary: h) (auto split: prod.splits sum.splits)

lemma py_run_facts:
  fixes xs :: "('p::linorder \<times> pyval) list"
  assumes c: "comparable xs" and i: "i \<le> length xs"
  shows "\<exists>h ys hi. py_heappush_all [] xs = (Inr (), h) \<and> py_heappop_n h i = (Inr ys, hi)
           \<and> length ys = i \<and> sorted (map entry_key ys) \<and> is_heap (map entry_key hi)
           \<and> mset ys + mset hi = mset xs"
proof -
  have ok: "\<And>a b. a \<in> set xs \<Longrightarrow> b \<in> set xs \<Longrightarrow> tuple_lt a b = Inr (entry_key a < entry_key b)"
    using c by (rule comparable_key)
  obtain h where h: "py_heappush_all [] xs = (Inr (), h)"
      "heappush_all (map entry_key []) (map entry_key xs) = (Inr (), map entry_key h)"
      "mset h = mset [] + mset xs"
    using py_heappush_all_sim [OF ok, where h = "[]" and xs = xs] by auto
  have "set_mset (mset h) = set xs" using h(3) by simp
  then have sh: "set h \<subseteq> set xs" by simp
  have "size (mset h) = size (mset xs)" using h(3) by simp
  then have lh: "length h = length xs" by simp
  have "\<exists>H. heappush_all [] (map entry_key xs) = (Inr (), H) \<and> is_heap H"
    using heappush_all_correct [OF is_heap_Nil, of "map entry_key xs"] by blast
  then have hp: "is_heap (map entry_key h)" using h(2) by simp
  have il: "i \<le> length h" using i lh by simp
  obtain ys hi where r: "py_heappop_n h i = (Inr ys, hi)"
      "heappop_n (map entry_key h) i = (Inr (map entry_key ys), map entry_key hi)"
      "mset h = mset ys + mset hi" "length ys = i"
    using py_heappop_n_sim [OF ok sh il] by blast
  have "\<exists>ys' h'. heappop_n (map entry_key h) i = (Inr ys', h') \<and> is_heap h' \<and> sorted ys'"
    using heappop_n_correct [OF hp, of i] il by auto
  then have "is_heap (map entry_key hi) \<and> sorted (map entry_key ys)" using r(2) by simp
  then show ?thesis using h(1,3) r by simp
qed

text \<open>
  C4. Empty-error law of the fail-fast components: \<^verbatim>\<open>dequeue()\<close> and \<^verbatim>\<open>front()\<close> on an
  empty deque-backed queue, and \<^verbatim>\<open>heappop\<close> on an empty heap, fail with \<^verbatim>\<open>IndexError\<close>
  (the error kind the specification names EmptyContainerError), and the container after the
  failed call is exactly the container before it.
\<close>

theorem empty_error_law:
  "my_queue_empty q \<Longrightarrow>
   my_queue_dequeue q = (Inl IndexError, q) \<and> my_queue_front q = (Inl IndexError, q)
   \<and> heappop ([] :: 'a::linorder list) = (Inl IndexError, [])"
  by (simp add: my_queue_dequeue_def my_queue_front_def heappop_def list_pop_def)

theorem empty_error_law_witness:
  "my_queue_empty (my_queue_init StrT)
   \<and> my_queue_dequeue (my_queue_init StrT) = (Inl IndexError, my_queue_init StrT)
   \<and> my_queue_front (my_queue_init StrT) = (Inl IndexError, my_queue_init StrT)
   \<and> heappop ([] :: (int \<times> string) list) = (Inl IndexError, [])"
proof -
  have e: "my_queue_empty (my_queue_init StrT)"
    by (simp add: my_queue_empty_def my_queue_init_def)
  show ?thesis
    using e empty_error_law [OF e, where ?'a = "int \<times> string"] by simp
qed

text \<open>
  C2, as stated. The claim covers every sequence of inserts of \<^verbatim>\<open>(priority, payload)\<close>
  entries. Insert \<^verbatim>\<open>(1, 'a')\<close>, \<^verbatim>\<open>(2, None)\<close>, \<^verbatim>\<open>(2, 'b')\<close>: the three inserts succeed,
  and the first extract-min raises \<^verbatim>\<open>TypeError\<close>, when sifting compares the two entries of
  priority 2 by their payloads. It yields no entry, and the entry of minimal priority is no
  longer in the heap.
\<close>

theorem heap_extract_min_incomparable_counterexample:
  "fst (py_heappush_all [] [(1::int, StrV ''a''), (2, NoneV), (2, StrV ''b'')]) = Inr ()
   \<and> py_heappop_n (snd (py_heappush_all [] [(1::int, StrV ''a''), (2, NoneV), (2, StrV ''b'')])) 1
       = (Inl TypeError, [(2, NoneV), (2, StrV ''b'')])"
  by code_simp

text \<open>
  C2, amended. Min-extraction law of the priority queue, for every sequence of inserts of
  entries that are comparable (comparing any two of them never raises: entries of equal
  priority have payloads that are equal or ordered). Pushing the entries \<open>xs\<close> on an empty
  heap never fails. For \<open>k\<close> extractions, \<open>k\<close> at most the number of inserts: all succeed, the
  extracted priorities are in non-decreasing order, the extracted entries and the entries left
  are together the inserted ones, every extraction returns an entry held at that moment whose
  priority is minimal among the entries held, and the heap is empty afterwards exactly when
  \<open>k\<close> is the number of inserts. With more extractions than inserts the run fails with
  \<^verbatim>\<open>IndexError\<close> on the emptied heap.
\<close>

theorem heap_extract_min_law:
  fixes xs :: "('p::linorder \<times> pyval) list"
  assumes c: "comparable xs"
  shows "fst (py_heappush_all [] xs) = Inr ()
    \<and> (k \<le> length xs \<longrightarrow>
        (\<exists>ys h'. py_heappop_n (snd (py_heappush_all [] xs)) k = (Inr ys, h')
           \<and> length ys = k \<and> sorted (map fst ys) \<and> mset ys + mset h' = mset xs
           \<and> (h' = [] \<longleftrightarrow> k = length xs)
           \<and> (\<forall>i<k. ys ! i \<in> set (snd (py_heappop_n (snd (py_heappush_all [] xs)) i))
                 \<and> (\<forall>e \<in> set (snd (py_heappop_n (snd (py_heappush_all [] xs)) i)).
                       fst (ys ! i) \<le> fst e))))
    \<and> (length xs < k \<longrightarrow>
          py_heappop_n (snd (py_heappush_all [] xs)) k = (Inl IndexError, []))"
proof -
  have ok: "\<And>a b. a \<in> set xs \<Longrightarrow> b \<in> set xs \<Longrightarrow> tuple_lt a b = Inr (entry_key a < entry_key b)"
    using c by (rule comparable_key)
  obtain h where h: "py_heappush_all [] xs = (Inr (), h)"
    using py_run_facts [OF c, of 0] by auto
  have facts: "\<exists>ys hi. py_heappop_n h i = (Inr ys, hi)
           \<and> length ys = i \<and> sorted (map entry_key ys) \<and> is_heap (map entry_key hi)
           \<and> mset ys + mset hi = mset xs" if "i \<le> length xs" for i
    using py_run_facts [OF c that] h by auto
  have A: "fst (py_heappush_all [] xs) = Inr ()" using h by simp
  have B: "\<exists>ys h'. py_heappop_n h k = (Inr ys, h')
           \<and> length ys = k \<and> sorted (map fst ys) \<and> mset ys + mset h' = mset xs
           \<and> (h' = [] \<longleftrightarrow> k = length xs)
           \<and> (\<forall>i<k. ys ! i \<in> set (snd (py_heappop_n h i))
                 \<and> (\<forall>e \<in> set (snd (py_heappop_n h i)). fst (ys ! i) \<le> fst e))"
    if k: "k \<le> length xs"
  proof -
    obtain ys h' where r: "py_heappop_n h k = (Inr ys, h')" "length ys = k"
        "sorted (map entry_key ys)" "mset ys + mset h' = mset xs"
      using facts [OF k] by blast
    have e: "map fst (map entry_key ys) = map fst ys" by (simp add: fst_entry_key comp_def)
    have 2: "sorted (map fst ys)" using sorted_map_fst_lex [OF r(3)] unfolding e .
    have "size (mset ys + mset h') = size (mset xs)" using r(4) by simp
    then have "length ys + length h' = length xs" by simp
    then have 4: "(h' = []) = (k = length xs)" using r(2) by auto
    have 5: "ys ! i \<in> set (snd (py_heappop_n h i))
                 \<and> (\<forall>e \<in> set (snd (py_heappop_n h i)). fst (ys ! i) \<le> fst e)"
      if i: "i < k" for i
    proof -
      have il: "i \<le> length xs" using i k by simp
      obtain ysi hi where ri: "py_heappop_n h i = (Inr ysi, hi)" "length ysi = i"
          "is_heap (map entry_key hi)" "mset ysi + mset hi = mset xs"
        using facts [OF il] by blast
      have "size (mset ysi + mset hi) = size (mset xs)" using ri(4) by simp
      then have "length hi = length xs - i" using ri(2) by simp
      then have ne: "hi \<noteq> []" using i k by auto
      have "set_mset (mset ysi + mset hi) = set xs" using ri(4) by simp
      then have shi: "set hi \<subseteq> set xs" by auto
      obtain h2 where pop: "py_heappop hi = (Inr (hi ! 0), h2)"
        using py_heappop_sim [OF ok shi ne] by blast
      define m where "m = k - Suc i"
      have m: "k = i + Suc m" using i by (simp add: m_def)
      have "py_heappop_n h (i + Suc m) =
              (case py_heappop_n hi (Suc m) of
                 (Inl e, h3) \<Rightarrow> (Inl e, h3)
               | (Inr zs, h3) \<Rightarrow> (Inr (ysi @ zs), h3))"
        by (simp only: py_heappop_n_add ri(1) prod.case sum.case)
      moreover have "py_heappop_n hi (Suc m) =
              (case py_heappop_n h2 m of
                 (Inl e, h3) \<Rightarrow> (Inl e, h3)
               | (Inr zs, h3) \<Rightarrow> (Inr (hi ! 0 # zs), h3))"
        using pop by simp
      moreover have "py_heappop_n h (i + Suc m) = (Inr ys, h')" using r(1) m by (simp only:)
      ultimately have "\<exists>zs. ys = ysi @ (hi ! 0 # zs)"
        by (auto simp del: py_heappop_n.simps split: prod.splits sum.splits)
      then have yi: "ys ! i = hi ! 0" using ri(2) by auto
      have mem: "hi ! 0 \<in> set hi" using ne by simp
      have low: "fst (hi ! 0) \<le> fst e" if "e \<in> set hi" for e
      proof -
        have "entry_key e \<in> set (map entry_key hi)" using that by simp
        then have "map entry_key hi ! 0 \<le> entry_key e"
          using is_heap_root_min [OF ri(3)] by blast
        then have "entry_key (hi ! 0) \<le> entry_key e" using ne by (simp add: nth_map)
        then have "fst (entry_key (hi ! 0)) \<le> fst (entry_key e)" by (rule fst_mono_lex)
        then show ?thesis by (simp add: fst_entry_key)
      qed
      show ?thesis using ri(1) yi mem low by simp
    qed
    show ?thesis using r(1,2,4) 2 4 5 by blast
  qed
  have C: "py_heappop_n h k = (Inl IndexError, [])" if "length xs < k"
  proof -
    obtain ys0 h0 where "py_heappop_n h 0 = (Inr ys0, h0)" "mset ys0 + mset h0 = mset xs"
      using facts [of 0] by auto
    then have m: "mset h = mset xs" by simp
    have "set_mset (mset h) = set xs" using m by simp
    then have sh: "set h \<subseteq> set xs" by simp
    have "size (mset h) = size (mset xs)" using m by simp
    then have "length h < k" using that by simp
    with sh show ?thesis
      using py_heappop_n_underflow [where A = "set xs" and h = h and k = k] ok by blast
  qed
  have hh: "snd (py_heappush_all [] xs) = h" using h by simp
  show ?thesis unfolding hh using A B C by blast
qed

theorem heap_extract_min_law_witness:
  "comparable [(2::int, StrV ''Sleep''), (1, StrV ''Eat''), (3, StrV ''Work'')]
   \<and> 3 \<le> length [(2::int, StrV ''Sleep''), (1, StrV ''Eat''), (3, StrV ''Work'')]
   \<and> py_heappop_n (snd (py_heappush_all [] [(2::int, StrV ''Sleep''), (1, StrV ''Eat''), (3, StrV ''Work'')])) 3
       = (Inr [(1::int, StrV ''Eat''), (2, StrV ''Sleep''), (3, StrV ''Work'')], [])
   \<and> sorted (map fst [(1::int, StrV ''Eat''), (2, StrV ''Sleep''), (3, StrV ''Work'')])"
proof -
  have c: "comparable [(2::int, StrV ''Sleep''), (1, StrV ''Eat''), (3, StrV ''Work'')]"
    by code_simp
  have k: "3 \<le> length [(2::int, StrV ''Sleep''), (1, StrV ''Eat''), (3, StrV ''Work'')]" by simp
  have e: "py_heappop_n (snd (py_heappush_all [] [(2::int, StrV ''Sleep''), (1, StrV ''Eat''), (3, StrV ''Work'')])) 3
       = (Inr [(1::int, StrV ''Eat''), (2, StrV ''Sleep''), (3, StrV ''Work'')], [])"
    by code_simp
  have "\<exists>ys h'. py_heappop_n (snd (py_heappush_all [] [(2::int, StrV ''Sleep''), (1, StrV ''Eat''), (3, StrV ''Work'')])) 3 = (Inr ys, h')
          \<and> sorted (map fst ys)"
    using k heap_extract_min_law [OF c, of 3] by blast
  then have "sorted (map fst [(1::int, StrV ''Eat''), (2, StrV ''Sleep''), (3, StrV ''Work'')])"
    unfolding e by simp
  then show ?thesis using c k e by simp
qed

text \<open>
  C10. Determinism of the heap-backed priority queue. Pushing the entries \<open>xs\<close> and popping
  as many times yields exactly \<open>sort xs\<close>, the entries in the lexicographic order of
  \<^verbatim>\<open>(priority, payload)\<close> tuples: entries of equal priority come out in the order of their
  payloads. The extraction sequence is therefore a function of the entries alone; any two
  push sequences with the same entries give the same extraction sequence.
\<close>

theorem heap_extraction_determined:
  fixes xs :: "('p::linorder \<times> 'v::linorder) list"
  shows "fst (heappush_all [] xs) = Inr ()
     \<and> heappop_n (snd (heappush_all [] xs)) (length xs) = (Inr (sort xs), [])
     \<and> sorted_wrt (\<lambda>a b. fst a < fst b \<or> fst a = fst b \<and> snd a \<le> snd b) (sort xs)
     \<and> (mset xs' = mset xs \<longrightarrow>
          heappop_n (snd (heappush_all [] xs')) (length xs')
            = heappop_n (snd (heappush_all [] xs)) (length xs))"
proof -
  have run: "fst (heappush_all [] zs) = Inr ()
      \<and> heappop_n (snd (heappush_all [] zs)) (length zs) = (Inr (sort zs), [])"
    for zs :: "('p \<times> 'v) list"
  proof -
    obtain h where h: "heappush_all [] zs = (Inr (), h)" "is_heap h" "mset h = mset zs"
        "length h = length zs"
      using heappush_all_fresh [of zs] by blast
    have S: "sort h = sort zs" using h(3) by (rule sort_cong_mset)
    obtain h' where h': "heappop_n h (length h) = (Inr (take (length h) (sort h)), h')"
        "mset h' = mset (drop (length h) (sort h))"
      using heappop_n_sort [OF h(2), of "length h"] by auto
    have "h' = []" using h'(2) by simp
    then show ?thesis using h' h(1,4) S by simp
  qed
  have "sorted (sort xs)" by simp
  then have tie: "sorted_wrt (\<lambda>a b. fst a < fst b \<or> fst a = fst b \<and> snd a \<le> snd b) (sort xs)"
    by (rule sorted_wrt_mono_rel [rotated]) (auto simp: less_eq_prod_def)
  have perm: "heappop_n (snd (heappush_all [] xs')) (length xs')
            = heappop_n (snd (heappush_all [] xs)) (length xs)" if m: "mset xs' = mset xs"
  proof -
    have "sort xs' = sort xs" using m by (rule sort_cong_mset)
    then show ?thesis using run [of xs'] run [of xs] by simp
  qed
  show ?thesis using run [of xs] tie perm by blast
qed

theorem heap_extraction_determined_witness:
  "mset [(1::int, ''Abc''), (2, ''Sleep''), (1, ''Eat'')]
     = mset [(1::int, ''Eat''), (2, ''Sleep''), (1, ''Abc'')]
   \<and> heappop_n (snd (heappush_all [] [(1::int, ''Eat''), (2, ''Sleep''), (1, ''Abc'')]))
         (length [(1::int, ''Eat''), (2, ''Sleep''), (1, ''Abc'')])
       = (Inr [(1, ''Abc''), (1, ''Eat''), (2, ''Sleep'')], [])
   \<and> heappop_n (snd (heappush_all [] [(1::int, ''Abc''), (2, ''Sleep''), (1, ''Eat'')]))
         (length [(1::int, ''Abc''), (2, ''Sleep''), (1, ''Eat'')])
       = (Inr [(1, ''Abc''), (1, ''Eat''), (2, ''Sleep'')], [])"
proof -
  have m: "mset [(1::int, ''Abc''), (2, ''Sleep''), (1, ''Eat'')]
     = mset [(1::int, ''Eat''), (2, ''Sleep''), (1, ''Abc'')]"
    by (simp add: add_mset_commute)
  have s: "sort [(1::int, ''Eat''), (2, ''Sleep''), (1, ''Abc'')]
     = [(1, ''Abc''), (1, ''Eat''), (2, ''Sleep'')]"
    by code_simp
  have t: "heappop_n (snd (heappush_all [] [(1::int, ''Eat''), (2, ''Sleep''), (1, ''Abc'')]))
         (length [(1::int, ''Eat''), (2, ''Sleep''), (1, ''Abc'')])
       = (Inr (sort [(1::int, ''Eat''), (2, ''Sleep''), (1, ''Abc'')]), [])
     \<and> heappop_n (snd (heappush_all [] [(1::int, ''Abc''), (2, ''Sleep''), (1, ''Eat'')]))
         (length [(1::int, ''Abc''), (2, ''Sleep''), (1, ''Eat'')])
       = heappop_n (snd (heappush_all [] [(1::int, ''Eat''), (2, ''Sleep''), (1, ''Abc'')]))
         (length [(1::int, ''Eat''), (2, ''Sleep''), (1, ''Abc'')])"
    using m heap_extraction_determined
      [of "[(1::int, ''Eat''), (2, ''Sleep''), (1, ''Abc'')]"
          "[(1::int, ''Abc''), (2, ''Sleep''), (1, ''Eat'')]"]
    by blast
  show ?thesis using m t by (simp add: s)
qed

end
